theory Spec2Isabelle
  imports Main
begin

section \<open>Data model (yapper.go)\<close>

type_synonym ID = string

type_synonym Cadence = string

text \<open>
  A \<^verbatim>\<open>time.Time\<close> is read as its instant, counted from the zero Time, so that the
  zero value of the type is \<open>0\<close> and \<^verbatim>\<open>t.Before(u)\<close> is \<open>t < u\<close>.
\<close>

type_synonym time = int

definition CadenceOneWeek :: Cadence where
  "CadenceOneWeek = ''one-week''"

definition CadenceTwoWeeks :: Cadence where
  "CadenceTwoWeeks = ''two-weeks''"

record Person =
  ID :: ID
  DenyList :: "ID list"
  Cadence :: Cadence
  Squad :: string

record Config =
  People :: "Person list"

text \<open>
  \<^verbatim>\<open>Pairings{data [][2]ID}\<close>: the pairs in the order \<^verbatim>\<open>Add\<close> appended them, which is the
  order in which \<^verbatim>\<open>All\<close> yields them.
\<close>

type_synonym Pairings = "(ID \<times> ID) list"

text \<open>
  The failures of the code: the error values of \<^verbatim>\<open>GetPerson\<close> and \<^verbatim>\<open>validate\<close>, the two
  \<^verbatim>\<open>log.Fatalf\<close> exits of \<^verbatim>\<open>getIneligiblePeople\<close>, and the run-time panic of Go on an
  assignment to an entry of a nil map.
\<close>

datatype error =
    NoPersonWithID ID
  | IDNotUnique ID
  | CannotFindInConfig ID
  | UnexpectedCadence Cadence
  | AssignmentToNilMap

text \<open>
  The two methods of the standard library's \<^verbatim>\<open>time.Time\<close> that the code calls are
  parameters of the model: \<^verbatim>\<open>ISOWeek\<close> returns the ISO year and week of an instant,
  \<^verbatim>\<open>AddDate\<close> moves it by years, months and days.
\<close>

record timePkg =
  ISOWeek :: "time \<Rightarrow> int \<times> int"
  AddDate :: "time \<Rightarrow> int \<Rightarrow> int \<Rightarrow> int \<Rightarrow> time"

subsection \<open>Go maps\<close>

text \<open>
  A Go map is a partial function. \<^verbatim>\<open>for k, v := range m\<close> visits the entries of \<open>m\<close> in
  an order the language leaves open, which may differ from one loop to the next: every
  such loop of the model takes the order of the keys as a list \<open>ks\<close> and visits
  \<open>rangeMap m ks\<close>. The orders Go can choose are the enumerations of the keys of \<open>m\<close>,
  \<open>iterationOrder m ks\<close>.
\<close>

definition rangeMap :: "('k \<rightharpoonup> 'v) \<Rightarrow> 'k list \<Rightarrow> ('k \<times> 'v) list" where
  "rangeMap m ks = List.map_filter (\<lambda>k. map_option (Pair k) (m k)) ks"

definition iterationOrder :: "('k \<rightharpoonup> 'v) \<Rightarrow> 'k list \<Rightarrow> bool" where
  "iterationOrder m ks \<longleftrightarrow> distinct ks \<and> set ks = dom m"

text \<open>
  A map value that can be nil is an option, \<open>None\<close> the nil map. Reading a nil map finds
  no entry; \<open>mapGet m k\<close> is \<^verbatim>\<open>v, exists := m[k]\<close>.
\<close>

definition mapGet :: "('k \<rightharpoonup> 'v) option \<Rightarrow> 'k \<Rightarrow> 'v option" where
  "mapGet m k = (case m of None \<Rightarrow> None | Some f \<Rightarrow> f k)"

subsection \<open>Config\<close>

definition GetPerson :: "Config \<Rightarrow> ID \<Rightarrow> error + Person" where
  "GetPerson c i =
     (case find (\<lambda>p. ID p = i) (People c) of
        None \<Rightarrow> Inl (NoPersonWithID i)
      | Some p \<Rightarrow> Inr p)"

fun validateLoop :: "Person list \<Rightarrow> ID set \<Rightarrow> error option" where
  "validateLoop [] ids = None"
| "validateLoop (person # rest) ids =
     (if ID person \<in> ids then Some (IDNotUnique (ID person))
      else validateLoop rest (insert (ID person) ids))"

definition validate :: "Config \<Rightarrow> error option" where
  "validate c = validateLoop (People c) {}"

section \<open>History store (package history)\<close>

text \<open>
  \<^verbatim>\<open>History{data map[ID]map[ID]time.Time}\<close>. The outer map is nil in the zero value
  \<^verbatim>\<open>History{}\<close>; a partner map is nil where the decoded document holds \<^verbatim>\<open>null\<close> for a
  person. Every key is taken to hold a partner map of its own, as the decoder and
  \<^verbatim>\<open>make\<close> allocate them.
\<close>

type_synonym partners = "(ID \<rightharpoonup> time) option"

record History =
  data :: "(ID \<rightharpoonup> partners) option"

text \<open>
  The two mutating methods work on the store behind the pointer \<open>h\<close>, and a panic leaves
  a store behind too: \<open>Inr h'\<close> is the store after a call that returns, \<open>Inl (e, h')\<close> the
  panic \<open>e\<close> with the store at that moment.
\<close>

definition addMeetingToPersonsHistory ::
    "History \<Rightarrow> ID \<Rightarrow> ID \<Rightarrow> time \<Rightarrow> error \<times> History + History" where
  "addMeetingToPersonsHistory h person otherPerson meetingTime =
     (case data h of
        None \<Rightarrow> Inl (AssignmentToNilMap, h)
      | Some d \<Rightarrow>
          (case d person of
             None \<Rightarrow> Inr (h\<lparr>data := Some (d(person \<mapsto> Some [otherPerson \<mapsto> meetingTime]))\<rparr>)
           | Some None \<Rightarrow> Inl (AssignmentToNilMap, h)
           | Some (Some personHistory) \<Rightarrow>
               Inr (h\<lparr>data := Some (d(person \<mapsto> Some (personHistory(otherPerson \<mapsto> meetingTime))))\<rparr>)))"

definition AddMeeting :: "History \<Rightarrow> ID \<Rightarrow> ID \<Rightarrow> time \<Rightarrow> error \<times> History + History" where
  "AddMeeting h person1 person2 meetingTime =
     (let h1 = (if data h = None then h\<lparr>data := Some Map.empty\<rparr> else h) in
      case addMeetingToPersonsHistory h1 person1 person2 meetingTime of
        Inl panic \<Rightarrow> Inl panic
      | Inr h2 \<Rightarrow> addMeetingToPersonsHistory h2 person2 person1 meetingTime)"

definition storeAfter :: "error \<times> History + History \<Rightarrow> History" where
  "storeAfter r = (case r of Inl (e, h) \<Rightarrow> h | Inr h \<Rightarrow> h)"

definition GetPersonToLastMeetingMap :: "History \<Rightarrow> ID \<Rightarrow> partners" where
  "GetPersonToLastMeetingMap h person =
     (case mapGet (data h) person of
        None \<Rightarrow> None
      | Some personHistory \<Rightarrow> personHistory)"

text \<open>\<^verbatim>\<open>peopleToTime[p]\<close> read as a value: the zero Time where \<open>p\<close> is no key.\<close>

definition timeAt :: "partners \<Rightarrow> ID \<Rightarrow> time" where
  "timeAt peopleToTime p = (case mapGet peopleToTime p of None \<Rightarrow> 0 | Some t \<Rightarrow> t)"

text \<open>The inner loop of \<^verbatim>\<open>GetPeopleMetSortedByLastMeeting\<close>: the index it leaves with.\<close>

fun scanIndex :: "partners \<Rightarrow> time \<Rightarrow> ID list \<Rightarrow> nat" where
  "scanIndex peopleToTime meetingTime [] = 0"
| "scanIndex peopleToTime meetingTime (sortedPerson # rest) =
     (if meetingTime < timeAt peopleToTime sortedPerson then 0
      else Suc (scanIndex peopleToTime meetingTime rest))"

text \<open>
  \<^verbatim>\<open>slices.Insert(s, i, v)\<close>; it panics for \<open>i\<close> beyond the length, which the index
  counted by \<open>scanIndex\<close> over the same slice never is.
\<close>

definition slicesInsert :: "'a list \<Rightarrow> nat \<Rightarrow> 'a \<Rightarrow> 'a list" where
  "slicesInsert s i v = take i s @ [v] @ drop i s"

fun sortedLoop :: "partners \<Rightarrow> (ID \<times> time) list \<Rightarrow> ID list \<Rightarrow> ID list" where
  "sortedLoop peopleToTime [] sortedPeople = sortedPeople"
| "sortedLoop peopleToTime ((p, meetingTime) # rest) sortedPeople =
     sortedLoop peopleToTime rest
       (slicesInsert sortedPeople (scanIndex peopleToTime meetingTime sortedPeople) p)"

text \<open>\<open>ord\<close> is the order in which the loop ranges over the partner map of \<open>person\<close>.\<close>

definition GetPeopleMetSortedByLastMeeting :: "ID list \<Rightarrow> History \<Rightarrow> ID \<Rightarrow> ID list" where
  "GetPeopleMetSortedByLastMeeting ord hist person =
     (let peopleToTime = GetPersonToLastMeetingMap hist person in
      sortedLoop peopleToTime (rangeMap (mapGet peopleToTime) ord) [])"

section \<open>Valid pairings, eligibility and the matcher (yapper.go)\<close>

text \<open>\<^verbatim>\<open>pairings[id]\<close> read as a value: the nil slice where \<open>id\<close> is no key.\<close>

definition sliceAt :: "(ID \<rightharpoonup> ID list) \<Rightarrow> ID \<Rightarrow> ID list" where
  "sliceAt pairings i = (case pairings i of None \<Rightarrow> [] | Some s \<Rightarrow> s)"

fun potentialPairLoop :: "Person \<Rightarrow> Person list \<Rightarrow> (ID \<rightharpoonup> ID list) \<Rightarrow> (ID \<rightharpoonup> ID list)" where
  "potentialPairLoop person [] pairings = pairings"
| "potentialPairLoop person (potentialPair # rest) pairings =
     (if ID person = ID potentialPair \<or> ID potentialPair \<in> set (DenyList person)
         \<or> ID person \<in> set (DenyList potentialPair)
      then potentialPairLoop person rest pairings
      else if Squad person \<noteq> [] \<and> Squad person = Squad potentialPair
      then potentialPairLoop person rest pairings
      else potentialPairLoop person rest
             (pairings(ID person \<mapsto> sliceAt pairings (ID person) @ [ID potentialPair])))"

fun personLoop :: "Person list \<Rightarrow> Person list \<Rightarrow> (ID \<rightharpoonup> ID list) \<Rightarrow> (ID \<rightharpoonup> ID list)" where
  "personLoop [] people pairings = pairings"
| "personLoop (person # rest) people pairings =
     personLoop rest people (potentialPairLoop person people pairings)"

definition determineValidPairings :: "Config \<Rightarrow> (ID \<rightharpoonup> ID list)" where
  "determineValidPairings config = personLoop (People config) (People config) Map.empty"

definition isValidWeekForTwoWeekCadence :: "timePkg \<Rightarrow> time \<Rightarrow> bool" where
  "isValidWeekForTwoWeekCadence lib date = (snd (ISOWeek lib date) mod 2 = 0)"

fun ineligibleLoop :: "Config \<Rightarrow> bool \<Rightarrow> ID list \<Rightarrow> ID list \<Rightarrow> error + ID list" where
  "ineligibleLoop conf twoWeekValid [] ineligible = Inr ineligible"
| "ineligibleLoop conf twoWeekValid (i # rest) ineligible =
     (case GetPerson conf i of
        Inl err \<Rightarrow> Inl (CannotFindInConfig i)
      | Inr person \<Rightarrow>
          if Cadence person = CadenceOneWeek \<or> Cadence person = [] then
            ineligibleLoop conf twoWeekValid rest ineligible
          else if Cadence person = CadenceTwoWeeks then
            (if \<not> twoWeekValid then ineligibleLoop conf twoWeekValid rest (ineligible @ [i])
             else ineligibleLoop conf twoWeekValid rest ineligible)
          else Inl (UnexpectedCadence (Cadence person)))"

text \<open>\<open>ord\<close> is the order in which the loop ranges over the keys of the graph.\<close>

definition getIneligiblePeople ::
    "timePkg \<Rightarrow> ID list \<Rightarrow> Config \<Rightarrow> (ID \<rightharpoonup> ID list) \<Rightarrow> time \<Rightarrow> error + ID list" where
  "getIneligiblePeople lib ord conf idToValidPairings date =
     ineligibleLoop conf (isValidWeekForTwoWeekCadence lib date)
       (map fst (rangeMap idToValidPairings ord)) []"

definition getPeopleNotMetBefore :: "ID list \<Rightarrow> ID list \<Rightarrow> ID list" where
  "getPeopleNotMetBefore validPairings previousPairings =
     filter (\<lambda>i. i \<notin> set previousPairings) validPairings"

definition getOrderedPossiblePairings :: "ID list \<Rightarrow> ID \<Rightarrow> ID list \<Rightarrow> History \<Rightarrow> ID list" where
  "getOrderedPossiblePairings ord i validPairings hist =
     (let previousMeetingsOldestFirst = GetPeopleMetSortedByLastMeeting ord hist i;
          unmetPeople = getPeopleNotMetBefore validPairings previousMeetingsOldestFirst
      in unmetPeople @ filter (\<lambda>prevID. prevID \<in> set validPairings) previousMeetingsOldestFirst)"

text \<open>
  The orders one call of \<^verbatim>\<open>pairPeople\<close> ranges in: over the graph in
  \<^verbatim>\<open>getIneligiblePeople\<close>, over the graph in its own loop, and over the partner map of
  each person it orders candidates for.
\<close>

record rangeOrders =
  eligibleOrder :: "ID list"
  visitOrder :: "ID list"
  historyOrder :: "ID \<Rightarrow> ID list"

text \<open>The inner loop of \<^verbatim>\<open>pairPeople\<close>: the first candidate that is not yet paired.\<close>

fun firstUnpaired :: "ID list \<Rightarrow> ID list \<Rightarrow> ID option" where
  "firstUnpaired [] alreadyPaired = None"
| "firstUnpaired (pair # rest) alreadyPaired =
     (if pair \<in> set alreadyPaired then firstUnpaired rest alreadyPaired else Some pair)"

fun pairLoop ::
    "(ID \<Rightarrow> ID list) \<Rightarrow> History \<Rightarrow> (ID \<times> ID list) list \<Rightarrow> ID list \<Rightarrow> Pairings \<Rightarrow> Pairings" where
  "pairLoop hord hist [] alreadyPaired pairings = pairings"
| "pairLoop hord hist ((i, validPairings) # rest) alreadyPaired pairings =
     (if i \<in> set alreadyPaired then pairLoop hord hist rest alreadyPaired pairings
      else
        (case firstUnpaired (getOrderedPossiblePairings (hord i) i validPairings hist) alreadyPaired of
           None \<Rightarrow> pairLoop hord hist rest alreadyPaired pairings
         | Some pair \<Rightarrow>
             pairLoop hord hist rest (alreadyPaired @ [i, pair]) (pairings @ [(i, pair)])))"

definition pairPeople ::
    "timePkg \<Rightarrow> rangeOrders \<Rightarrow> Config \<Rightarrow> (ID \<rightharpoonup> ID list) \<Rightarrow> History \<Rightarrow> time \<Rightarrow> error + Pairings" where
  "pairPeople lib ro conf idToValidPairings hist date =
     (case getIneligiblePeople lib (eligibleOrder ro) conf idToValidPairings date of
        Inl err \<Rightarrow> Inl err
      | Inr alreadyPaired \<Rightarrow>
          Inr (pairLoop (historyOrder ro) hist (rangeMap idToValidPairings (visitOrder ro))
                 alreadyPaired []))"

text \<open>The loop of \<^verbatim>\<open>GeneratePairings\<close> over the pairs of one week.\<close>

fun addMeetings :: "History \<Rightarrow> Pairings \<Rightarrow> time \<Rightarrow> error + History" where
  "addMeetings hist [] date = Inr hist"
| "addMeetings hist ((id1, id2) # rest) date =
     (case AddMeeting hist id1 id2 date of
        Inl (err, hist') \<Rightarrow> Inl err
      | Inr hist' \<Rightarrow> addMeetings hist' rest date)"

text \<open>
  \<^verbatim>\<open>for range weeks\<close>, with the weeks still to run, the index of the week, and the state
  of the loop: the store behind \<open>hist\<close>, \<open>date\<close> and \<open>weeklyPairings\<close>. \<open>ros k\<close> gives the
  orders in which week \<open>k\<close> ranges over its maps.
\<close>

fun weeksLoop ::
    "timePkg \<Rightarrow> (nat \<Rightarrow> rangeOrders) \<Rightarrow> Config \<Rightarrow> (ID \<rightharpoonup> ID list) \<Rightarrow> nat \<Rightarrow> nat \<Rightarrow>
     History \<Rightarrow> time \<Rightarrow> Pairings list \<Rightarrow> error + Pairings list \<times> History" where
  "weeksLoop lib ros config idToValidPairings 0 k hist date weeklyPairings =
     Inr (weeklyPairings, hist)"
| "weeksLoop lib ros config idToValidPairings (Suc n) k hist date weeklyPairings =
     (case pairPeople lib (ros k) config idToValidPairings hist date of
        Inl err \<Rightarrow> Inl err
      | Inr pairings \<Rightarrow>
          (case addMeetings hist pairings date of
             Inl err \<Rightarrow> Inl err
           | Inr hist' \<Rightarrow>
               weeksLoop lib ros config idToValidPairings n (Suc k) hist'
                 (AddDate lib date 0 0 7) (weeklyPairings @ [pairings])))"

text \<open>
  \<open>now\<close> is what \<^verbatim>\<open>time.Now()\<close> reads. The result is the returned slice and the store
  that \<open>hist\<close> points to when the function returns.
\<close>

definition GeneratePairings ::
    "timePkg \<Rightarrow> time \<Rightarrow> (nat \<Rightarrow> rangeOrders) \<Rightarrow> Config \<Rightarrow> History \<Rightarrow> int \<Rightarrow>
     error + Pairings list \<times> History" where
  "GeneratePairings lib now ros config hist weeks =
     weeksLoop lib ros config (determineValidPairings config) (nat weeks) 0 hist now []"

section \<open>Auxiliary definitions\<close>

text \<open>
  The condition under which the inner loop of \<^verbatim>\<open>determineValidPairings\<close> reaches its
  \<^verbatim>\<open>append\<close>: neither of its two \<^verbatim>\<open>continue\<close> statements is taken.
\<close>

definition validPartner :: "Person \<Rightarrow> Person \<Rightarrow> bool" where
  "validPartner p q \<longleftrightarrow>
     ID p \<noteq> ID q \<and> ID q \<notin> set (DenyList p) \<and> ID p \<notin> set (DenyList q)
     \<and> \<not> (Squad p \<noteq> [] \<and> Squad p = Squad q)"

text \<open>The IDs of a Pairing Set, pair by pair.\<close>

definition pairedIDs :: "Pairings \<Rightarrow> ID list" where
  "pairedIDs pairings = concat (map (\<lambda>(id1, id2). [id1, id2]) pairings)"

text \<open>
  What the \<^verbatim>\<open>switch\<close> of \<^verbatim>\<open>getIneligiblePeople\<close> finds for an ID: a person with one of
  the three cadences it accepts, and a person on the two-week cadence.
\<close>

definition recognised :: "Config \<Rightarrow> ID \<Rightarrow> bool" where
  "recognised conf k \<longleftrightarrow>
     (\<exists>p. GetPerson conf k = Inr p \<and>
          (Cadence p = CadenceOneWeek \<or> Cadence p = [] \<or> Cadence p = CadenceTwoWeeks))"

definition biweekly :: "Config \<Rightarrow> ID \<Rightarrow> bool" where
  "biweekly conf k \<longleftrightarrow> (\<exists>p. GetPerson conf k = Inr p \<and> Cadence p = CadenceTwoWeeks)"

text \<open>A store in which no key holds a nil partner map.\<close>

definition noNilPartners :: "History \<Rightarrow> bool" where
  "noNilPartners h \<longleftrightarrow> (\<forall>k. mapGet (data h) k \<noteq> Some None)"

text \<open>A graph in which every listed partner is itself a key.\<close>

definition partnersAreKeys :: "(ID \<rightharpoonup> ID list) \<Rightarrow> bool" where
  "partnersAreKeys g \<longleftrightarrow> (\<forall>k v. g k = Some v \<longrightarrow> set v \<subseteq> dom g)"

text \<open>
  The orders Go can range in during one call of \<^verbatim>\<open>pairPeople\<close> on the graph \<open>g\<close> and the
  store \<open>hist\<close>.
\<close>

definition admissibleOrders :: "(ID \<rightharpoonup> ID list) \<Rightarrow> History \<Rightarrow> rangeOrders \<Rightarrow> bool" where
  "admissibleOrders g hist ro \<longleftrightarrow>
     iterationOrder g (eligibleOrder ro) \<and> iterationOrder g (visitOrder ro)
     \<and> (\<forall>i. iterationOrder (mapGet (GetPersonToLastMeetingMap hist i)) (historyOrder ro i))"

subsection \<open>The weeks of a run, as the specification describes them\<close>

text \<open>
  The date of week \<open>k\<close> is the start date moved \<open>k\<close> times by seven days. The store
  before week \<open>k\<close> is the initial store after the meetings of the weeks before \<open>k\<close>, each
  fed in at the date of its week. The Pairing Set of week \<open>k\<close> is what the matcher
  returns for the date of week \<open>k\<close> against the store before week \<open>k\<close>.
\<close>

definition weekDate :: "timePkg \<Rightarrow> time \<Rightarrow> nat \<Rightarrow> time" where
  "weekDate lib start k = ((\<lambda>d. AddDate lib d 0 0 7) ^^ k) start"

fun weekStart ::
    "timePkg \<Rightarrow> time \<Rightarrow> (nat \<Rightarrow> rangeOrders) \<Rightarrow> Config \<Rightarrow> History \<Rightarrow> nat \<Rightarrow> error + History" where
  "weekStart lib start ros config hist 0 = Inr hist"
| "weekStart lib start ros config hist (Suc k) =
     (case weekStart lib start ros config hist k of
        Inl err \<Rightarrow> Inl err
      | Inr h \<Rightarrow>
          (case pairPeople lib (ros k) config (determineValidPairings config) h
                  (weekDate lib start k) of
             Inl err \<Rightarrow> Inl err
           | Inr pairings \<Rightarrow> addMeetings h pairings (weekDate lib start k)))"

definition weekPairings ::
    "timePkg \<Rightarrow> time \<Rightarrow> (nat \<Rightarrow> rangeOrders) \<Rightarrow> Config \<Rightarrow> History \<Rightarrow> nat \<Rightarrow> Pairings" where
  "weekPairings lib start ros config hist k =
     (case weekStart lib start ros config hist k of
        Inl err \<Rightarrow> []
      | Inr h \<Rightarrow>
          (case pairPeople lib (ros k) config (determineValidPairings config) h
                  (weekDate lib start k) of
             Inl err \<Rightarrow> []
           | Inr pairings \<Rightarrow> pairings))"

subsection \<open>Stores, rosters and orders to evaluate on\<close>

text \<open>The store decoded from the history document \<^verbatim>\<open>{"mario": null}\<close>.\<close>

definition nullPartnersHistory :: History where
  "nullPartnersHistory = \<lparr>data = Some [''mario'' \<mapsto> None]\<rparr>"

definition smallHistory :: History where
  "smallHistory =
     \<lparr>data = Some [''mario'' \<mapsto> Some [''peach'' \<mapsto> 3], ''peach'' \<mapsto> Some [''mario'' \<mapsto> 3]]\<rparr>"

definition metHistory :: History where
  "metHistory = \<lparr>data = Some [''mario'' \<mapsto> Some [''luigi'' \<mapsto> 5, ''peach'' \<mapsto> 2]]\<rparr>"

text \<open>
  A calendar for the examples: instants are days counted from the Monday of ISO week
  31 of 2025, and only days are added.
\<close>

definition exampleCalendar :: timePkg where
  "exampleCalendar = \<lparr>ISOWeek = (\<lambda>t. (2025, 31 + t div 7)), AddDate = (\<lambda>t y m d. t + d)\<rparr>"

definition marioParty :: Config where
  "marioParty = \<lparr>People =
     [\<lparr>ID = ''mario'', DenyList = [], Cadence = [], Squad = ''bros''\<rparr>,
      \<lparr>ID = ''luigi'', DenyList = [], Cadence = ''two-weeks'', Squad = ''bros''\<rparr>,
      \<lparr>ID = ''peach'', DenyList = [''bowser''], Cadence = ''one-week'', Squad = []\<rparr>,
      \<lparr>ID = ''bowser'', DenyList = [], Cadence = [], Squad = ''koopas''\<rparr>]\<rparr>"

text \<open>A roster in which nobody has a valid partner.\<close>

definition loneWario :: Config where
  "loneWario = \<lparr>People =
     [\<lparr>ID = ''wario'', DenyList = [''waluigi''], Cadence = ''two-weeks'', Squad = []\<rparr>,
      \<lparr>ID = ''waluigi'', DenyList = [], Cadence = [], Squad = []\<rparr>]\<rparr>"

text \<open>
  Three ways of ranging over the graph of \<open>marioParty\<close>; no partner map is ranged over,
  as fits a store without meetings.
\<close>

definition rosterOrder :: rangeOrders where
  "rosterOrder = \<lparr>eligibleOrder = [''mario'', ''luigi'', ''peach'', ''bowser''],
     visitOrder = [''mario'', ''luigi'', ''peach'', ''bowser''],
     historyOrder = (\<lambda>i. [])\<rparr>"

definition bowserFirst :: rangeOrders where
  "bowserFirst = \<lparr>eligibleOrder = [''mario'', ''luigi'', ''peach'', ''bowser''],
     visitOrder = [''bowser'', ''mario'', ''luigi'', ''peach''],
     historyOrder = (\<lambda>i. [])\<rparr>"

definition eligibleReversed :: rangeOrders where
  "eligibleReversed = \<lparr>eligibleOrder = [''bowser'', ''peach'', ''luigi'', ''mario''],
     visitOrder = [''mario'', ''luigi'', ''peach'', ''bowser''],
     historyOrder = (\<lambda>i. [])\<rparr>"

section \<open>Go maps and the roster\<close>

lemma mapGet_Some [simp]: "mapGet (Some f) = f"
  by (rule ext) (simp add: mapGet_def)

lemma mapGet_None [simp]: "mapGet None = Map.empty"
  by (rule ext) (simp add: mapGet_def)

lemma rangeMap_Nil [simp]: "rangeMap m [] = []"
  by (simp add: rangeMap_def map_filter_simps)

lemma rangeMap_Cons:
  "rangeMap m (k # ks) = (case m k of None \<Rightarrow> rangeMap m ks | Some v \<Rightarrow> (k, v) # rangeMap m ks)"
  by (simp add: rangeMap_def map_filter_simps split: option.splits)

lemma set_rangeMap: "(k, v) \<in> set (rangeMap m ks) \<longleftrightarrow> k \<in> set ks \<and> m k = Some v"
  by (induction ks) (auto simp: rangeMap_Cons split: option.splits)

lemma fst_rangeMap: "map fst (rangeMap m ks) = filter (\<lambda>k. m k \<noteq> None) ks"
  by (induction ks) (auto simp: rangeMap_Cons split: option.splits)

lemma set_fst_rangeMap: "fst ` set (rangeMap m ks) = set ks \<inter> dom m"
proof -
  have "fst ` set (rangeMap m ks) = set (map fst (rangeMap m ks))" by simp
  also have "\<dots> = set ks \<inter> dom m" unfolding fst_rangeMap by auto
  finally show ?thesis .
qed

lemma set_keys_rangeMap:
  "iterationOrder g ord \<Longrightarrow> set (map fst (rangeMap g ord)) = dom g"
  unfolding fst_rangeMap by (auto simp: iterationOrder_def)

lemma keys_rangeMap_subset: "set (map fst (rangeMap g ord)) \<subseteq> dom g"
  unfolding fst_rangeMap by auto

text \<open>\<^verbatim>\<open>validate\<close> accepts exactly the rosters whose IDs are unique.\<close>

lemma validate_distinct_aux:
  "validateLoop ps ids = None \<longleftrightarrow> distinct (map ID ps) \<and> ID ` set ps \<inter> ids = {}"
  by (induction ps arbitrary: ids) auto

lemma validate_distinct: "validate c = None \<longleftrightarrow> distinct (map ID (People c))"
  by (simp add: validate_def validate_distinct_aux)

lemma find_ID:
  "distinct (map ID ps) \<Longrightarrow> p \<in> set ps \<Longrightarrow> find (\<lambda>q. ID q = ID p) ps = Some p"
  by (induction ps) (auto simp: image_iff)

lemma GetPerson_unique:
  "validate c = None \<Longrightarrow> p \<in> set (People c) \<Longrightarrow> GetPerson c (ID p) = Inr p"
  by (simp add: GetPerson_def validate_distinct find_ID)

lemma GetPerson_Inr:
  "GetPerson c i = Inr p \<Longrightarrow> p \<in> set (People c) \<and> ID p = i"
  by (auto simp: GetPerson_def find_Some_iff split: option.splits)

lemma GetPerson_member:
  "p \<in> set (People c) \<Longrightarrow>
     \<exists>p'. GetPerson c (ID p) = Inr p' \<and> p' \<in> set (People c) \<and> ID p' = ID p"
proof -
  assume "p \<in> set (People c)"
  then have "find (\<lambda>q. ID q = ID p) (People c) \<noteq> None"
    by (auto simp: find_None_iff)
  then obtain p' where "GetPerson c (ID p) = Inr p'"
    by (auto simp: GetPerson_def)
  with GetPerson_Inr [OF this] show ?thesis by blast
qed

section \<open>The history store\<close>

lemma addMeetingToPersonsHistory_cases:
  obtains (nil) "addMeetingToPersonsHistory h p q t = Inl (AssignmentToNilMap, h)"
      "data h = None \<or> mapGet (data h) p = Some None"
  | (fresh) d where "data h = Some d" "d p = None"
      "addMeetingToPersonsHistory h p q t = Inr (h\<lparr>data := Some (d(p \<mapsto> Some [q \<mapsto> t]))\<rparr>)"
  | (known) d m where "data h = Some d" "d p = Some (Some m)"
      "addMeetingToPersonsHistory h p q t = Inr (h\<lparr>data := Some (d(p \<mapsto> Some (m(q \<mapsto> t))))\<rparr>)"
proof (cases "data h")
  case None
  then show ?thesis by (intro nil) (simp_all add: addMeetingToPersonsHistory_def)
next
  case (Some d)
  note d = this
  show ?thesis
  proof (cases "d p")
    case None
    with d show ?thesis by (intro fresh [of d]) (simp_all add: addMeetingToPersonsHistory_def)
  next
    case (Some pm)
    note dp = this
    show ?thesis
    proof (cases pm)
      case None
      with d dp show ?thesis
        by (intro nil) (simp_all add: addMeetingToPersonsHistory_def mapGet_def)
    next
      case (Some m)
      with d dp show ?thesis
        by (intro known [of d m]) (simp_all add: addMeetingToPersonsHistory_def)
    qed
  qed
qed

lemma addMeetingToPersonsHistory_Inl:
  "addMeetingToPersonsHistory h p q t = Inl (e, h') \<Longrightarrow>
     e = AssignmentToNilMap \<and> h' = h \<and> (data h = None \<or> mapGet (data h) p = Some None)"
  by (cases rule: addMeetingToPersonsHistory_cases [where h = h and p = p and q = q and t = t]) simp_all

lemma addMeetingToPersonsHistory_lookup:
  assumes "addMeetingToPersonsHistory h p q t = Inr h'"
  shows "mapGet (GetPersonToLastMeetingMap h' x) y =
           (if x = p \<and> y = q then Some t else mapGet (GetPersonToLastMeetingMap h x) y)"
proof (cases rule: addMeetingToPersonsHistory_cases [where h = h and p = p and q = q and t = t])
  case nil
  with assms show ?thesis by simp
next
  case (fresh d)
  with assms have "h' = h\<lparr>data := Some (d(p \<mapsto> Some [q \<mapsto> t]))\<rparr>" by simp
  with fresh(1,2) show ?thesis
    by (simp add: GetPersonToLastMeetingMap_def mapGet_def)
next
  case (known d m)
  with assms have "h' = h\<lparr>data := Some (d(p \<mapsto> Some (m(q \<mapsto> t))))\<rparr>" by simp
  with known(1,2) show ?thesis
    by (simp add: GetPersonToLastMeetingMap_def mapGet_def)
qed

lemma addMeetingToPersonsHistory_nil:
  assumes "addMeetingToPersonsHistory h p q t = Inr h'"
  shows "mapGet (data h') x = Some None \<longleftrightarrow> mapGet (data h) x = Some None"
proof (cases rule: addMeetingToPersonsHistory_cases [where h = h and p = p and q = q and t = t])
  case nil
  with assms show ?thesis by simp
next
  case (fresh d)
  with assms have "h' = h\<lparr>data := Some (d(p \<mapsto> Some [q \<mapsto> t]))\<rparr>" by simp
  with fresh(1,2) show ?thesis by (simp add: mapGet_def)
next
  case (known d m)
  with assms have "h' = h\<lparr>data := Some (d(p \<mapsto> Some (m(q \<mapsto> t))))\<rparr>" by simp
  with known(1,2) show ?thesis by (simp add: mapGet_def)
qed

lemma addMeetingToPersonsHistory_data:
  assumes "addMeetingToPersonsHistory h p q t = Inr h'"
  shows "data h' \<noteq> None"
  using assms by (cases rule: addMeetingToPersonsHistory_cases [where h = h and p = p and q = q and t = t]) auto

lemma addMeetingToPersonsHistory_returns:
  assumes "data h \<noteq> None" "mapGet (data h) p \<noteq> Some None"
  shows "\<exists>h'. addMeetingToPersonsHistory h p q t = Inr h'"
  using assms by (cases rule: addMeetingToPersonsHistory_cases [where h = h and p = p and q = q and t = t]) auto

text \<open>One step changes at most the entry it is called for.\<close>

lemma addMeetingToPersonsHistory_storeAfter:
  "mapGet (GetPersonToLastMeetingMap (storeAfter (addMeetingToPersonsHistory h p q t)) x) y =
     (if x = p \<and> y = q \<and> (\<exists>h'. addMeetingToPersonsHistory h p q t = Inr h') then Some t
      else mapGet (GetPersonToLastMeetingMap h x) y)"
proof (cases "addMeetingToPersonsHistory h p q t")
  case (Inl eh)
  obtain e h' where "eh = (e, h')" by (cases eh)
  with Inl addMeetingToPersonsHistory_Inl [of h p q t e h'] show ?thesis
    by (simp add: storeAfter_def)
next
  case (Inr h')
  from addMeetingToPersonsHistory_lookup [OF Inr, of x y] Inr show ?thesis
    by (simp add: storeAfter_def)
qed

lemma AddMeeting_unfold:
  "AddMeeting h a b t =
     (case addMeetingToPersonsHistory
             (if data h = None then h\<lparr>data := Some Map.empty\<rparr> else h) a b t of
        Inl panic \<Rightarrow> Inl panic
      | Inr h2 \<Rightarrow> addMeetingToPersonsHistory h2 b a t)"
  by (simp only: AddMeeting_def Let_def)

lemma AddMeeting_Inr:
  assumes "AddMeeting h a b t = Inr h'"
  shows "\<exists>h2. addMeetingToPersonsHistory
                (if data h = None then h\<lparr>data := Some Map.empty\<rparr> else h) a b t = Inr h2 \<and>
           addMeetingToPersonsHistory h2 b a t = Inr h'"
proof (cases "addMeetingToPersonsHistory
                (if data h = None then h\<lparr>data := Some Map.empty\<rparr> else h) a b t")
  case (Inl e)
  from assms have False
    unfolding AddMeeting_unfold Inl by simp
  then show ?thesis ..
next
  case (Inr h2)
  from assms have "addMeetingToPersonsHistory h2 b a t = Inr h'"
    unfolding AddMeeting_unfold Inr by simp
  with Inr show ?thesis by blast
qed

lemma allocated_lookup:
  "mapGet (GetPersonToLastMeetingMap
             (if data h = None then h\<lparr>data := Some Map.empty\<rparr> else h) x) y
     = mapGet (GetPersonToLastMeetingMap h x) y"
  by (simp add: GetPersonToLastMeetingMap_def mapGet_def)

lemma allocated_nil:
  "mapGet (data (if data h = None then h\<lparr>data := Some Map.empty\<rparr> else h)) x = Some None
     \<longleftrightarrow> mapGet (data h) x = Some None"
  by (simp add: mapGet_def)

lemma if_merge: "(if P then s else if Q then s else r) = (if Q \<or> P then s else r)"
  by simp

lemma AddMeeting_lookup:
  assumes "AddMeeting h a b t = Inr h'"
  shows "mapGet (GetPersonToLastMeetingMap h' x) y =
           (if (x = a \<and> y = b) \<or> (x = b \<and> y = a) then Some t
            else mapGet (GetPersonToLastMeetingMap h x) y)"
proof -
  from AddMeeting_Inr [OF assms] obtain h2 where
    s1: "addMeetingToPersonsHistory
           (if data h = None then h\<lparr>data := Some Map.empty\<rparr> else h) a b t = Inr h2"
    and s2: "addMeetingToPersonsHistory h2 b a t = Inr h'"
    by blast
  have "mapGet (GetPersonToLastMeetingMap h2 x) y =
          (if x = a \<and> y = b then Some t else mapGet (GetPersonToLastMeetingMap h x) y)"
    by (simp only: addMeetingToPersonsHistory_lookup [OF s1] allocated_lookup)
  then have "mapGet (GetPersonToLastMeetingMap h' x) y =
          (if x = b \<and> y = a then Some t
           else if x = a \<and> y = b then Some t else mapGet (GetPersonToLastMeetingMap h x) y)"
    by (simp only: addMeetingToPersonsHistory_lookup [OF s2])
  then show ?thesis
    by (simp only: if_merge)
qed

lemma AddMeeting_nil:
  assumes "AddMeeting h a b t = Inr h'"
  shows "mapGet (data h') x = Some None \<longleftrightarrow> mapGet (data h) x = Some None"
proof -
  from AddMeeting_Inr [OF assms] obtain h2 where
    s1: "addMeetingToPersonsHistory
           (if data h = None then h\<lparr>data := Some Map.empty\<rparr> else h) a b t = Inr h2"
    and s2: "addMeetingToPersonsHistory h2 b a t = Inr h'"
    by blast
  show ?thesis
    by (simp only: addMeetingToPersonsHistory_nil [OF s2]
        addMeetingToPersonsHistory_nil [OF s1] allocated_nil)
qed

text \<open>
  \<^verbatim>\<open>AddMeeting\<close> returns on every store in which neither person is a key with a nil
  partner map, and panics on every other store.
\<close>

lemma AddMeeting_returns:
  assumes "mapGet (data h) a \<noteq> Some None" "mapGet (data h) b \<noteq> Some None"
  shows "\<exists>h'. AddMeeting h a b t = Inr h'"
proof -
  let ?h1 = "if data h = None then h\<lparr>data := Some Map.empty\<rparr> else h"
  have d1: "data ?h1 \<noteq> None" by simp
  have "mapGet (data ?h1) a \<noteq> Some None"
    using assms(1) by (simp only: allocated_nil not_False_eq_True)
  from addMeetingToPersonsHistory_returns [OF d1 this]
  obtain h2 where s1: "addMeetingToPersonsHistory ?h1 a b t = Inr h2" by blast
  have d2: "data h2 \<noteq> None"
    by (rule addMeetingToPersonsHistory_data [OF s1])
  have "mapGet (data h2) b \<noteq> Some None"
    using assms(2)
    by (simp only: addMeetingToPersonsHistory_nil [OF s1] allocated_nil not_False_eq_True)
  from addMeetingToPersonsHistory_returns [OF d2 this]
  obtain h' where "addMeetingToPersonsHistory h2 b a t = Inr h'" by blast
  with s1 show ?thesis by (simp add: AddMeeting_unfold)
qed

lemma AddMeeting_panics:
  assumes "AddMeeting h a b t = Inl (e, h')"
  shows "e = AssignmentToNilMap \<and>
         (mapGet (data h) a = Some None \<or> mapGet (data h) b = Some None)"
proof (cases "mapGet (data h) a = Some None \<or> mapGet (data h) b = Some None")
  case True
  let ?h1 = "if data h = None then h\<lparr>data := Some Map.empty\<rparr> else h"
  show ?thesis
  proof (cases "addMeetingToPersonsHistory ?h1 a b t")
    case (Inl eh)
    with assms have "addMeetingToPersonsHistory ?h1 a b t = Inl (e, h')"
      unfolding AddMeeting_unfold by simp
    from addMeetingToPersonsHistory_Inl [OF this] True show ?thesis by simp
  next
    case (Inr h2)
    with assms have "addMeetingToPersonsHistory h2 b a t = Inl (e, h')"
      unfolding AddMeeting_unfold by simp
    from addMeetingToPersonsHistory_Inl [OF this] True show ?thesis by simp
  qed
next
  case False
  then have "mapGet (data h) a \<noteq> Some None" "mapGet (data h) b \<noteq> Some None" by simp_all
  from AddMeeting_returns [OF this, of t] assms show ?thesis by auto
qed

text \<open>
  Whether it returns or panics, \<^verbatim>\<open>AddMeeting\<close> leaves every entry as it was or holding
  the new timestamp, and touches no entry but the two of its pair.
\<close>

lemma AddMeeting_storeAfter:
  "mapGet (GetPersonToLastMeetingMap (storeAfter (AddMeeting h a b t)) x) y =
     mapGet (GetPersonToLastMeetingMap h x) y
   \<or> ((x = a \<and> y = b \<or> x = b \<and> y = a) \<and>
       mapGet (GetPersonToLastMeetingMap (storeAfter (AddMeeting h a b t)) x) y = Some t)"
proof -
  let ?h1 = "if data h = None then h\<lparr>data := Some Map.empty\<rparr> else h"
  let ?L = "\<lambda>s. mapGet (GetPersonToLastMeetingMap s x) y"
  have s1: "?L (storeAfter (addMeetingToPersonsHistory ?h1 a b t)) = ?L h
            \<or> (x = a \<and> y = b) \<and> ?L (storeAfter (addMeetingToPersonsHistory ?h1 a b t)) = Some t"
    unfolding addMeetingToPersonsHistory_storeAfter allocated_lookup by simp
  show ?thesis
  proof (cases "addMeetingToPersonsHistory ?h1 a b t")
    case (Inl eh)
    then have "storeAfter (AddMeeting h a b t) = storeAfter (addMeetingToPersonsHistory ?h1 a b t)"
      unfolding AddMeeting_unfold by simp
    with s1 show ?thesis by auto
  next
    case (Inr h2)
    then have e: "storeAfter (AddMeeting h a b t) = storeAfter (addMeetingToPersonsHistory h2 b a t)"
      unfolding AddMeeting_unfold by simp
    from Inr s1 have 1: "?L h2 = ?L h \<or> (x = a \<and> y = b) \<and> ?L h2 = Some t"
      by (simp add: storeAfter_def)
    have 2: "?L (storeAfter (addMeetingToPersonsHistory h2 b a t)) = ?L h2
            \<or> (x = b \<and> y = a) \<and> ?L (storeAfter (addMeetingToPersonsHistory h2 b a t)) = Some t"
      unfolding addMeetingToPersonsHistory_storeAfter by simp
    from 1 2 show ?thesis unfolding e by metis
  qed
qed

text \<open>
  Where it returns, both directed lookups give the new timestamp: the round trip of C7
  on the stores that hold no nil partner map for either person.
\<close>

lemma AddMeeting_both_lookups:
  assumes "mapGet (data h) a \<noteq> Some None" "mapGet (data h) b \<noteq> Some None"
  shows "\<exists>h'. AddMeeting h a b t = Inr h' \<and>
           mapGet (GetPersonToLastMeetingMap h' a) b = Some t \<and>
           mapGet (GetPersonToLastMeetingMap h' b) a = Some t"
proof -
  from AddMeeting_returns [OF assms] obtain h' where r: "AddMeeting h a b t = Inr h'" by blast
  have "mapGet (GetPersonToLastMeetingMap h' a) b = Some t"
    by (simp only: AddMeeting_lookup [OF r]) simp
  moreover have "mapGet (GetPersonToLastMeetingMap h' b) a = Some t"
    by (simp only: AddMeeting_lookup [OF r]) simp
  ultimately show ?thesis using r by blast
qed

text \<open>
  C7 (history symmetry round-trip), at a store the code can be given: the store decoded
  from the document \<^verbatim>\<open>{"mario": null}\<close> holds the key \<^verbatim>\<open>mario\<close> with a nil partner map.
  \<^verbatim>\<open>AddMeeting("luigi", "mario", t)\<close> records \<^verbatim>\<open>mario\<close> in a new partner map of \<^verbatim>\<open>luigi\<close>;
  for the other direction \<^verbatim>\<open>addMeetingToPersonsHistory\<close> finds the key \<^verbatim>\<open>mario\<close>, so it
  allocates nothing, and assigns to an entry of the nil map. The call panics with one
  direction written: the lookup of \<^verbatim>\<open>mario\<close> for \<^verbatim>\<open>luigi\<close> gives \<open>t\<close>, the lookup of
  \<^verbatim>\<open>luigi\<close> for \<^verbatim>\<open>mario\<close> finds nothing.
\<close>

theorem AddMeeting_null_partners_panics:
  "AddMeeting nullPartnersHistory ''luigi'' ''mario'' t =
     Inl (AssignmentToNilMap, \<lparr>data = Some [''mario'' \<mapsto> None, ''luigi'' \<mapsto> Some [''mario'' \<mapsto> t]]\<rparr>)
   \<and> mapGet (GetPersonToLastMeetingMap
               (storeAfter (AddMeeting nullPartnersHistory ''luigi'' ''mario'' t)) ''luigi'') ''mario''
       = Some t
   \<and> mapGet (GetPersonToLastMeetingMap
               (storeAfter (AddMeeting nullPartnersHistory ''luigi'' ''mario'' t)) ''mario'') ''luigi''
       = None"
proof -
  have e: "AddMeeting nullPartnersHistory ''luigi'' ''mario'' t =
     Inl (AssignmentToNilMap, \<lparr>data = Some [''mario'' \<mapsto> None, ''luigi'' \<mapsto> Some [''mario'' \<mapsto> t]]\<rparr>)"
    by (simp add: nullPartnersHistory_def AddMeeting_def addMeetingToPersonsHistory_def)
  show ?thesis
    unfolding e by (simp add: storeAfter_def GetPersonToLastMeetingMap_def mapGet_def)
qed

text \<open>
  C8 (frame of \<^verbatim>\<open>AddMeeting\<close>): a call \<^verbatim>\<open>AddMeeting(a, b, t)\<close>, whether it returns or
  panics, leaves the stored timestamp of every ordered pair \<open>(x, y)\<close> with
  \<open>{x, y} \<noteq> {a, b}\<close> as it was, and removes no stored entry of any pair.
\<close>

theorem AddMeeting_frame:
  "({x, y} \<noteq> {a, b} \<longrightarrow>
      mapGet (GetPersonToLastMeetingMap (storeAfter (AddMeeting h a b t)) x) y
        = mapGet (GetPersonToLastMeetingMap h x) y)
   \<and> (mapGet (GetPersonToLastMeetingMap h x) y \<noteq> None \<longrightarrow>
        mapGet (GetPersonToLastMeetingMap (storeAfter (AddMeeting h a b t)) x) y \<noteq> None)"
proof -
  have d: "{x, y} = {a, b} \<longleftrightarrow> (x = a \<and> y = b) \<or> (x = b \<and> y = a)"
    by (simp only: doubleton_eq_iff)
  from AddMeeting_storeAfter [of h a b t x y] show ?thesis
    unfolding d by (elim disjE conjE) simp_all
qed

theorem AddMeeting_frame_witness:
  "{''mario'', ''peach''} \<noteq> {''mario'', ''luigi''}
   \<and> mapGet (GetPersonToLastMeetingMap smallHistory ''mario'') ''peach'' = Some 3
   \<and> mapGet (GetPersonToLastMeetingMap
               (storeAfter (AddMeeting smallHistory ''mario'' ''luigi'' 9)) ''mario'') ''peach''
       = Some 3
   \<and> mapGet (GetPersonToLastMeetingMap
               (storeAfter (AddMeeting smallHistory ''mario'' ''luigi'' 9)) ''mario'') ''luigi''
       = Some 9"
proof -
  let ?after = "storeAfter (AddMeeting smallHistory ''mario'' ''luigi'' 9)"
  have d: "{''mario'', ''peach''} \<noteq> {''mario'', ''luigi''}"
    by (simp only: doubleton_eq_iff) simp
  have old: "mapGet (GetPersonToLastMeetingMap smallHistory ''mario'') ''peach'' = Some 3"
    by (simp add: smallHistory_def GetPersonToLastMeetingMap_def mapGet_def)
  have "{''mario'', ''peach''} \<noteq> {''mario'', ''luigi''} \<longrightarrow>
        mapGet (GetPersonToLastMeetingMap ?after ''mario'') ''peach'' =
        mapGet (GetPersonToLastMeetingMap smallHistory ''mario'') ''peach''"
    by (rule conjunct1 [OF AddMeeting_frame])
  from mp [OF this d] old
  have new: "mapGet (GetPersonToLastMeetingMap ?after ''mario'') ''peach'' = Some 3"
    by (simp only:)
  have set: "mapGet (GetPersonToLastMeetingMap ?after ''mario'') ''luigi'' = Some 9"
    by (simp add: smallHistory_def AddMeeting_def addMeetingToPersonsHistory_def storeAfter_def
        GetPersonToLastMeetingMap_def mapGet_def)
  show ?thesis
    by (intro conjI d old new set)
qed

text \<open>
  C10 (a meeting of a person with themselves), at the store of C7: the call for
  \<^verbatim>\<open>mario\<close> with \<^verbatim>\<open>mario\<close> panics on the nil partner map and records nothing.
\<close>

theorem AddMeeting_self_null_partners_panics:
  "AddMeeting nullPartnersHistory ''mario'' ''mario'' t = Inl (AssignmentToNilMap, nullPartnersHistory)"
  by (simp add: nullPartnersHistory_def AddMeeting_def addMeetingToPersonsHistory_def)

text \<open>
  On every other store the two IDs are not compared: the call returns and the person is
  a partner of themselves, also on the zero value \<^verbatim>\<open>History{}\<close>.
\<close>

lemma AddMeeting_self:
  assumes "mapGet (data h) a \<noteq> Some None"
  shows "\<exists>h'. AddMeeting h a a t = Inr h' \<and> mapGet (GetPersonToLastMeetingMap h' a) a = Some t"
  using AddMeeting_both_lookups [OF assms assms] by blast

lemma AddMeeting_self_zero_value:
  "AddMeeting \<lparr>data = None\<rparr> a a t = Inr \<lparr>data = Some [a \<mapsto> Some [a \<mapsto> t]]\<rparr>"
  by (simp add: AddMeeting_def addMeetingToPersonsHistory_def)

text \<open>Calls that return keep the store free of nil partner maps.\<close>

lemma AddMeeting_noNilPartners:
  assumes "noNilPartners h"
  shows "\<exists>h'. AddMeeting h a b t = Inr h' \<and> noNilPartners h'"
proof -
  from assms have "mapGet (data h) a \<noteq> Some None" "mapGet (data h) b \<noteq> Some None"
    by (simp_all add: noNilPartners_def)
  from AddMeeting_returns [OF this] obtain h' where r: "AddMeeting h a b t = Inr h'" by blast
  have "noNilPartners h'"
    unfolding noNilPartners_def AddMeeting_nil [OF r] using assms by (simp add: noNilPartners_def)
  with r show ?thesis by blast
qed

lemma addMeetings_noNilPartners:
  "noNilPartners h \<Longrightarrow> \<exists>h'. addMeetings h ps t = Inr h' \<and> noNilPartners h'"
proof (induction ps arbitrary: h)
  case Nil
  then show ?case by simp
next
  case (Cons p ps)
  obtain a b where p: "p = (a, b)" by (cases p)
  from AddMeeting_noNilPartners [OF Cons.prems]
  obtain h1 where "AddMeeting h a b t = Inr h1" "noNilPartners h1" by blast
  with Cons.IH [OF this(2)] p show ?case by simp
qed

section \<open>Partners sorted by their last meeting\<close>

lemma slicesInsert_Cons:
  "slicesInsert (x # xs) (scanIndex ptt mt (x # xs)) p =
     (if mt < timeAt ptt x then p # x # xs else x # slicesInsert xs (scanIndex ptt mt xs) p)"
  by (simp add: slicesInsert_def)

lemma scanIndex_le: "scanIndex ptt mt xs \<le> length xs"
  by (induction xs) auto

lemma slicesInsert_simps:
  "slicesInsert [] n p = [p]"
  "slicesInsert (x # xs) 0 p = p # x # xs"
  "slicesInsert (x # xs) (Suc n) p = x # slicesInsert xs n p"
  by (simp_all add: slicesInsert_def)

lemma set_slicesInsert: "set (slicesInsert xs n p) = insert p (set xs)"
proof (induction xs arbitrary: n)
  case Nil
  show ?case by (simp add: slicesInsert_simps)
next
  case (Cons x xs)
  show ?case
    by (cases n) (auto simp: slicesInsert_simps Cons.IH)
qed

lemma distinct_slicesInsert:
  "distinct (slicesInsert xs n p) \<longleftrightarrow> distinct xs \<and> p \<notin> set xs"
proof (induction xs arbitrary: n)
  case Nil
  show ?case by (simp add: slicesInsert_simps)
next
  case (Cons x xs)
  show ?case
    by (cases n) (auto simp: slicesInsert_simps Cons.IH set_slicesInsert)
qed

lemma sorted_slicesInsert:
  assumes "sorted (map (timeAt ptt) xs)" "timeAt ptt p = mt"
  shows "sorted (map (timeAt ptt) (slicesInsert xs (scanIndex ptt mt xs) p))"
  using assms(1)
proof (induction xs)
  case Nil
  show ?case by (simp add: slicesInsert_def)
next
  case (Cons x xs)
  show ?case
  proof (cases "mt < timeAt ptt x")
    case True
    with Cons.prems assms(2) show ?thesis
      by (simp only: slicesInsert_Cons) fastforce
  next
    case False
    from Cons have "sorted (map (timeAt ptt) (slicesInsert xs (scanIndex ptt mt xs) p))"
      by simp
    with False Cons.prems assms(2) show ?thesis
      by (simp only: slicesInsert_Cons) (auto simp: set_slicesInsert)
  qed
qed

lemma set_sortedLoop: "set (sortedLoop ptt kvs acc) = set acc \<union> fst ` set kvs"
  by (induction ptt kvs acc rule: sortedLoop.induct) (auto simp: set_slicesInsert)

lemma distinct_sortedLoop:
  "distinct (map fst kvs) \<Longrightarrow> distinct acc \<Longrightarrow> set acc \<inter> fst ` set kvs = {} \<Longrightarrow>
   distinct (sortedLoop ptt kvs acc)"
proof (induction ptt kvs acc rule: sortedLoop.induct)
  case (1 ptt acc)
  then show ?case by simp
next
  case (2 ptt p mt rest acc)
  have "distinct (sortedLoop ptt rest (slicesInsert acc (scanIndex ptt mt acc) p))"
  proof (rule "2.IH")
    show "distinct (map fst rest)" using "2.prems"(1) by simp
    show "distinct (slicesInsert acc (scanIndex ptt mt acc) p)"
      using "2.prems" by (simp add: distinct_slicesInsert)
    show "set (slicesInsert acc (scanIndex ptt mt acc) p) \<inter> fst ` set rest = {}"
      using "2.prems" by (auto simp: set_slicesInsert)
  qed
  then show ?case by simp
qed

lemma sorted_sortedLoop:
  "(\<forall>(p, mt) \<in> set kvs. timeAt ptt p = mt) \<Longrightarrow> sorted (map (timeAt ptt) acc) \<Longrightarrow>
   sorted (map (timeAt ptt) (sortedLoop ptt kvs acc))"
proof (induction ptt kvs acc rule: sortedLoop.induct)
  case (1 ptt acc)
  then show ?case by simp
next
  case (2 ptt p mt rest acc)
  have "sorted (map (timeAt ptt) (sortedLoop ptt rest (slicesInsert acc (scanIndex ptt mt acc) p)))"
  proof (rule "2.IH")
    show "\<forall>(p, mt) \<in> set rest. timeAt ptt p = mt" using "2.prems"(1) by simp
    show "sorted (map (timeAt ptt) (slicesInsert acc (scanIndex ptt mt acc) p))"
      using "2.prems" by (intro sorted_slicesInsert) auto
  qed
  then show ?case by simp
qed

lemma rangeMap_timeAt: "\<forall>(p, mt) \<in> set (rangeMap (mapGet ptt) ord). timeAt ptt p = mt"
  by (auto simp: set_rangeMap timeAt_def)

text \<open>
  \<^verbatim>\<open>GetPeopleMetSortedByLastMeeting\<close> returns the keys of the partner map, each once, with
  timestamps that never decrease along the slice.
\<close>

lemma set_GetPeopleMetSortedByLastMeeting:
  "set (GetPeopleMetSortedByLastMeeting ord hist person) =
     set ord \<inter> dom (mapGet (GetPersonToLastMeetingMap hist person))"
  by (simp add: GetPeopleMetSortedByLastMeeting_def Let_def set_sortedLoop set_fst_rangeMap)

lemma distinct_GetPeopleMetSortedByLastMeeting:
  "distinct ord \<Longrightarrow> distinct (GetPeopleMetSortedByLastMeeting ord hist person)"
  unfolding GetPeopleMetSortedByLastMeeting_def Let_def
  by (rule distinct_sortedLoop) (simp_all add: fst_rangeMap)

lemma sorted_GetPeopleMetSortedByLastMeeting:
  "sorted (map (timeAt (GetPersonToLastMeetingMap hist person))
               (GetPeopleMetSortedByLastMeeting ord hist person))"
  unfolding GetPeopleMetSortedByLastMeeting_def Let_def
  by (rule sorted_sortedLoop) (simp_all add: rangeMap_timeAt)

lemma set_getOrderedPossiblePairings:
  "set (getOrderedPossiblePairings ord i validPairings hist) \<subseteq> set validPairings"
  by (auto simp: getOrderedPossiblePairings_def Let_def getPeopleNotMetBefore_def)

text \<open>
  C3 (candidate order): for every person \<open>i\<close>, list of valid partners and store, and
  every order in which Go ranges over the partner map of \<open>i\<close>, the candidate order is
  first the valid partners without a recorded meeting with \<open>i\<close>, in the order of the
  list of valid partners, and then a slice \<open>met\<close> that holds exactly the valid partners
  with a recorded meeting, each once, in ascending order of the timestamp of their last
  meeting with \<open>i\<close>; every candidate is a valid partner.
\<close>

theorem getOrderedPossiblePairings_order:
  assumes "iterationOrder (mapGet (GetPersonToLastMeetingMap hist i)) ord"
  shows "\<exists>met.
           getOrderedPossiblePairings ord i validPairings hist =
             filter (\<lambda>v. mapGet (GetPersonToLastMeetingMap hist i) v = None) validPairings @ met
         \<and> set met = {v \<in> set validPairings. mapGet (GetPersonToLastMeetingMap hist i) v \<noteq> None}
         \<and> distinct met
         \<and> sorted (map (timeAt (GetPersonToLastMeetingMap hist i)) met)
         \<and> set (getOrderedPossiblePairings ord i validPairings hist) \<subseteq> set validPairings"
proof -
  let ?ptt = "GetPersonToLastMeetingMap hist i"
  let ?prev = "GetPeopleMetSortedByLastMeeting ord hist i"
  let ?met = "filter (\<lambda>prevID. prevID \<in> set validPairings) ?prev"
  from assms have d: "distinct ord" and s: "set ord = dom (mapGet ?ptt)"
    by (simp_all add: iterationOrder_def)
  have sp: "set ?prev = dom (mapGet ?ptt)"
    by (simp add: set_GetPeopleMetSortedByLastMeeting s)
  have "getPeopleNotMetBefore validPairings ?prev =
          filter (\<lambda>v. mapGet ?ptt v = None) validPairings"
    unfolding getPeopleNotMetBefore_def sp by (rule filter_cong) (auto simp: dom_def)
  then have 1: "getOrderedPossiblePairings ord i validPairings hist =
          filter (\<lambda>v. mapGet ?ptt v = None) validPairings @ ?met"
    by (simp add: getOrderedPossiblePairings_def Let_def)
  have 2: "set ?met = {v \<in> set validPairings. mapGet ?ptt v \<noteq> None}"
    using sp by (auto simp: dom_def)
  have 3: "distinct ?met"
    by (rule distinct_filter) (rule distinct_GetPeopleMetSortedByLastMeeting [OF d])
  have 4: "sorted (map (timeAt ?ptt) ?met)"
    using sorted_GetPeopleMetSortedByLastMeeting [of hist i ord]
    by (simp add: sorted_map sorted_wrt_filter)
  from 1 2 3 4 set_getOrderedPossiblePairings show ?thesis by blast
qed

theorem getOrderedPossiblePairings_order_witness:
  "iterationOrder (mapGet (GetPersonToLastMeetingMap metHistory ''mario'')) [''luigi'', ''peach'']
   \<and> getOrderedPossiblePairings [''luigi'', ''peach''] ''mario'' [''bowser'', ''luigi'', ''peach'']
        metHistory = [''bowser'', ''peach'', ''luigi'']
   \<and> (\<exists>met.
         getOrderedPossiblePairings [''luigi'', ''peach''] ''mario'' [''bowser'', ''luigi'', ''peach'']
           metHistory =
           filter (\<lambda>v. mapGet (GetPersonToLastMeetingMap metHistory ''mario'') v = None)
             [''bowser'', ''luigi'', ''peach''] @ met
       \<and> set met = {v \<in> set [''bowser'', ''luigi'', ''peach''].
                      mapGet (GetPersonToLastMeetingMap metHistory ''mario'') v \<noteq> None}
       \<and> distinct met
       \<and> sorted (map (timeAt (GetPersonToLastMeetingMap metHistory ''mario'')) met)
       \<and> set (getOrderedPossiblePairings [''luigi'', ''peach''] ''mario''
                [''bowser'', ''luigi'', ''peach''] metHistory)
           \<subseteq> set [''bowser'', ''luigi'', ''peach''])"
proof -
  have p: "GetPersonToLastMeetingMap metHistory ''mario'' = Some [''luigi'' \<mapsto> 5, ''peach'' \<mapsto> 2]"
    by (simp add: metHistory_def GetPersonToLastMeetingMap_def)
  have h: "iterationOrder (mapGet (GetPersonToLastMeetingMap metHistory ''mario'')) [''luigi'', ''peach'']"
    by (simp add: p iterationOrder_def insert_commute)
  have e: "getOrderedPossiblePairings [''luigi'', ''peach''] ''mario'' [''bowser'', ''luigi'', ''peach'']
             metHistory = [''bowser'', ''peach'', ''luigi'']"
    by code_simp
  show ?thesis
    by (intro conjI h e getOrderedPossiblePairings_order [OF h])
qed

section \<open>The valid-pair graph\<close>

lemma validPartner_sym: "validPartner p q \<longleftrightarrow> validPartner q p"
  unfolding validPartner_def by metis

lemma potentialPairLoop_step:
  "potentialPairLoop person (q # rest) m =
     potentialPairLoop person rest
       (if validPartner person q then m(ID person \<mapsto> sliceAt m (ID person) @ [ID q]) else m)"
  by (simp add: validPartner_def)

lemma sliceAt_upd:
  "sliceAt (m(k \<mapsto> v)) k' = (if k' = k then v else sliceAt m k')"
  by (simp add: sliceAt_def)

lemma sliceAt_potentialPairLoop:
  "sliceAt (potentialPairLoop person qs m) k =
     sliceAt m k @ (if k = ID person then map ID (filter (validPartner person) qs) else [])"
proof (induction qs arbitrary: m)
  case Nil
  show ?case by simp
next
  case (Cons q rest)
  show ?case
    by (simp only: potentialPairLoop_step Cons.IH) (simp add: sliceAt_upd)
qed

lemma sliceAt_personLoop:
  "sliceAt (personLoop ps people m) k =
     sliceAt m k @
       concat (map (\<lambda>p. map ID (filter (validPartner p) people)) (filter (\<lambda>p. ID p = k) ps))"
proof (induction ps arbitrary: m)
  case Nil
  show ?case by simp
next
  case (Cons p rest)
  show ?case
    by (simp add: Cons.IH sliceAt_potentialPairLoop)
qed

text \<open>
  The slice the graph holds for \<open>k\<close>: for each roster entry with that ID, in roster
  order, the IDs of its valid partners in roster order.
\<close>

lemma sliceAt_determineValidPairings:
  "sliceAt (determineValidPairings c) k =
     concat (map (\<lambda>p. map ID (filter (validPartner p) (People c)))
                 (filter (\<lambda>p. ID p = k) (People c)))"
  by (simp add: determineValidPairings_def sliceAt_personLoop) (simp add: sliceAt_def)

lemma set_sliceAt_determineValidPairings:
  "b \<in> set (sliceAt (determineValidPairings c) a) \<longleftrightarrow>
     (\<exists>p \<in> set (People c). \<exists>q \<in> set (People c). ID p = a \<and> ID q = b \<and> validPartner p q)"
  by (auto simp: sliceAt_determineValidPairings)

lemma potentialPairLoop_nonempty:
  "(\<forall>k. m k \<noteq> Some []) \<Longrightarrow> potentialPairLoop person qs m k \<noteq> Some []"
proof (induction qs arbitrary: m)
  case Nil
  then show ?case by simp
next
  case (Cons q rest)
  show ?case
    unfolding potentialPairLoop_step
    by (rule Cons.IH) (use Cons.prems in simp)
qed

lemma personLoop_nonempty:
  "(\<forall>k. m k \<noteq> Some []) \<Longrightarrow> personLoop ps people m k \<noteq> Some []"
proof (induction ps arbitrary: m)
  case Nil
  then show ?case by simp
next
  case (Cons p rest)
  show ?case
    by (simp only: personLoop.simps) (rule Cons.IH, simp add: potentialPairLoop_nonempty Cons.prems)
qed

text \<open>The keys of the graph are the IDs with at least one valid partner.\<close>

lemma dom_determineValidPairings:
  "k \<in> dom (determineValidPairings c) \<longleftrightarrow> sliceAt (determineValidPairings c) k \<noteq> []"
proof -
  have "determineValidPairings c k \<noteq> Some []"
    unfolding determineValidPairings_def by (rule personLoop_nonempty) simp
  then show ?thesis
    by (cases "determineValidPairings c k") (auto simp: sliceAt_def)
qed

text \<open>
  C6 (symmetry of the valid-pair graph): in the graph \<^verbatim>\<open>determineValidPairings\<close> builds
  from any roster, \<open>b\<close> is among the valid partners of \<open>a\<close> if and only if \<open>a\<close> is among
  the valid partners of \<open>b\<close>. The builder runs no second pass, and the statement does
  not need the IDs of the roster to be unique.
\<close>

theorem determineValidPairings_symmetric:
  "b \<in> set (sliceAt (determineValidPairings c) a) \<longleftrightarrow>
   a \<in> set (sliceAt (determineValidPairings c) b)"
  unfolding set_sliceAt_determineValidPairings using validPartner_sym by blast

lemma rangeMap_graph_member:
  "(k, v) \<in> set (rangeMap g ord) \<Longrightarrow> b \<in> set v \<Longrightarrow> b \<in> set (sliceAt g k)"
  by (simp add: set_rangeMap sliceAt_def)

lemma determineValidPairings_partner:
  assumes "b \<in> set (sliceAt (determineValidPairings conf) a)"
  obtains p q where "p \<in> set (People conf)" "q \<in> set (People conf)" "ID p = a" "ID q = b"
    "validPartner p q"
  using assms unfolding set_sliceAt_determineValidPairings by blast

lemma determineValidPairings_no_self:
  "\<forall>(k, v) \<in> set (rangeMap (determineValidPairings conf) ord). k \<notin> set v"
proof (clarify)
  fix k v assume kv: "(k, v) \<in> set (rangeMap (determineValidPairings conf) ord)" and "k \<in> set v"
  from rangeMap_graph_member [OF this]
  obtain p q where "ID p = k" "ID q = k" "validPartner p q"
    by (rule determineValidPairings_partner)
  then show False by (simp add: validPartner_def)
qed

lemma determineValidPairings_key:
  assumes "k \<in> dom (determineValidPairings conf)"
  shows "\<exists>p \<in> set (People conf). ID p = k"
proof -
  from assms have "sliceAt (determineValidPairings conf) k \<noteq> []"
    by (rule iffD1 [OF dom_determineValidPairings])
  then obtain b where "b \<in> set (sliceAt (determineValidPairings conf) k)"
    by (cases "sliceAt (determineValidPairings conf) k") auto
  then show ?thesis by (rule determineValidPairings_partner) blast
qed

lemma determineValidPairings_keys_resolve:
  "\<forall>k \<in> dom (determineValidPairings conf). \<exists>p \<in> set (People conf). ID p = k"
  using determineValidPairings_key by blast

lemma determineValidPairings_partnersAreKeys: "partnersAreKeys (determineValidPairings conf)"
  unfolding partnersAreKeys_def
proof (intro allI impI subsetI)
  fix k v b
  let ?g = "determineValidPairings conf"
  assume "?g k = Some v" "b \<in> set v"
  then have "b \<in> set (sliceAt ?g k)" by (simp add: sliceAt_def)
  then have "k \<in> set (sliceAt ?g b)"
    using set_sliceAt_determineValidPairings validPartner_sym by blast
  then have "sliceAt ?g b \<noteq> []" by auto
  then show "b \<in> dom ?g" by (rule iffD2 [OF dom_determineValidPairings])
qed

lemma marioParty_graph:
  "determineValidPairings marioParty =
     [''mario'' \<mapsto> [''peach'', ''bowser''], ''luigi'' \<mapsto> [''peach'', ''bowser''],
      ''peach'' \<mapsto> [''mario'', ''luigi''], ''bowser'' \<mapsto> [''mario'', ''luigi'']]"
  by (simp add: determineValidPairings_def marioParty_def sliceAt_def)

lemma marioParty_order:
  "iterationOrder (determineValidPairings marioParty) [''mario'', ''luigi'', ''peach'', ''bowser'']"
  unfolding marioParty_graph iterationOrder_def by (simp add: insert_commute)

lemma marioParty_order2:
  "iterationOrder (determineValidPairings marioParty) [''bowser'', ''mario'', ''luigi'', ''peach'']"
  unfolding marioParty_graph iterationOrder_def by (simp add: insert_commute)

lemma marioParty_order3:
  "iterationOrder (determineValidPairings marioParty) [''bowser'', ''peach'', ''luigi'', ''mario'']"
  unfolding marioParty_graph iterationOrder_def by (simp add: insert_commute)

lemma zero_history_order:
  "iterationOrder (mapGet (GetPersonToLastMeetingMap \<lparr>data = None\<rparr> i)) []"
  by (simp add: iterationOrder_def GetPersonToLastMeetingMap_def mapGet_def)

lemma rosterOrder_admissible:
  "admissibleOrders (determineValidPairings marioParty) \<lparr>data = None\<rparr> rosterOrder"
  unfolding admissibleOrders_def
  by (simp add: rosterOrder_def marioParty_order zero_history_order)

lemma bowserFirst_admissible:
  "admissibleOrders (determineValidPairings marioParty) \<lparr>data = None\<rparr> bowserFirst"
  unfolding admissibleOrders_def
  by (simp add: bowserFirst_def marioParty_order marioParty_order2 zero_history_order)

section \<open>Eligibility\<close>

lemma Cadence_distinct:
  "CadenceTwoWeeks \<noteq> CadenceOneWeek" "CadenceTwoWeeks \<noteq> []" "CadenceOneWeek \<noteq> []"
  by (simp_all add: CadenceTwoWeeks_def CadenceOneWeek_def)

lemma ineligibleLoop_step:
  "ineligibleLoop conf tw (i # rest) acc =
     (case GetPerson conf i of
        Inl err \<Rightarrow> Inl (CannotFindInConfig i)
      | Inr person \<Rightarrow>
          if Cadence person = CadenceTwoWeeks
          then ineligibleLoop conf tw rest (if tw then acc else acc @ [i])
          else if Cadence person = CadenceOneWeek \<or> Cadence person = []
          then ineligibleLoop conf tw rest acc
          else Inl (UnexpectedCadence (Cadence person)))"
  by (simp add: Cadence_distinct split: sum.splits)

lemma ineligibleLoop_Inr:
  "ineligibleLoop conf tw ks acc = Inr r \<Longrightarrow>
     set r = set acc \<union> {k \<in> set ks. \<not> tw \<and> biweekly conf k} \<and> (\<forall>k \<in> set ks. recognised conf k)"
proof (induction ks arbitrary: acc)
  case Nil
  then show ?case by auto
next
  case (Cons i rest)
  from Cons.prems obtain p where p: "GetPerson conf i = Inr p"
    by (cases "GetPerson conf i") (simp_all del: ineligibleLoop.simps add: ineligibleLoop_step)
  show ?case
  proof (cases "Cadence p = CadenceTwoWeeks")
    case True
    with p Cons.prems have "ineligibleLoop conf tw rest (if tw then acc else acc @ [i]) = Inr r"
      by (simp del: ineligibleLoop.simps add: ineligibleLoop_step)
    from Cons.IH [OF this] p True show ?thesis
      by (auto simp: recognised_def biweekly_def)
  next
    case False
    with p Cons.prems have c: "Cadence p = CadenceOneWeek \<or> Cadence p = []"
      and "ineligibleLoop conf tw rest acc = Inr r"
      by (simp_all del: ineligibleLoop.simps add: ineligibleLoop_step split: if_splits)
    from Cons.IH [OF this(2)] p False c show ?thesis
      by (auto simp: recognised_def biweekly_def)
  qed
qed

lemma ineligibleLoop_returns:
  "(\<forall>k \<in> set ks. recognised conf k) \<Longrightarrow> \<exists>r. ineligibleLoop conf tw ks acc = Inr r"
proof (induction ks arbitrary: acc)
  case Nil
  then show ?case by simp
next
  case (Cons i rest)
  from Cons.prems obtain p where p: "GetPerson conf i = Inr p"
    and c: "Cadence p = CadenceOneWeek \<or> Cadence p = [] \<or> Cadence p = CadenceTwoWeeks"
    by (auto simp: recognised_def)
  from Cons.prems have r: "\<forall>k \<in> set rest. recognised conf k" by simp
  show ?case
  proof (cases "Cadence p = CadenceTwoWeeks")
    case True
    with p Cons.IH [OF r, of "if tw then acc else acc @ [i]"] show ?thesis
      by (simp del: ineligibleLoop.simps add: ineligibleLoop_step)
  next
    case False
    with p c Cons.IH [OF r, of acc] show ?thesis
      by (simp del: ineligibleLoop.simps add: ineligibleLoop_step)
  qed
qed

text \<open>
  Where the cadences of the roster are all accepted and the keys of the graph resolve in
  the roster, as on the graph built from it, no lookup and no cadence is fatal.
\<close>

lemma keys_recognised:
  assumes "\<forall>p \<in> set (People conf).
             Cadence p = CadenceOneWeek \<or> Cadence p = [] \<or> Cadence p = CadenceTwoWeeks"
    and "\<forall>k \<in> dom g. \<exists>p \<in> set (People conf). ID p = k"
    and "k \<in> dom g"
  shows "recognised conf k"
proof -
  from assms(2,3) obtain p where "p \<in> set (People conf)" "ID p = k" by blast
  with GetPerson_member [of p conf]
  obtain p' where g: "GetPerson conf k = Inr p'" and m: "p' \<in> set (People conf)" by auto
  from assms(1) m
  have c: "Cadence p' = CadenceOneWeek \<or> Cadence p' = [] \<or> Cadence p' = CadenceTwoWeeks"
    by (rule bspec)
  show ?thesis unfolding recognised_def
    by (rule exI [of _ p']) (rule conjI [OF g c])
qed

lemma getIneligiblePeople_returns_keys:
  assumes "\<forall>p \<in> set (People conf).
             Cadence p = CadenceOneWeek \<or> Cadence p = [] \<or> Cadence p = CadenceTwoWeeks"
    and "\<forall>k \<in> dom g. \<exists>p \<in> set (People conf). ID p = k"
  shows "\<exists>inel. getIneligiblePeople lib ord conf g date = Inr inel"
  unfolding getIneligiblePeople_def
proof (rule ineligibleLoop_returns, rule ballI)
  fix k assume "k \<in> set (map fst (rangeMap g ord))"
  then have "k \<in> dom g"
    by (rule subsetD [OF keys_rangeMap_subset])
  with assms show "recognised conf k" by (rule keys_recognised)
qed

lemma getIneligiblePeople_returns:
  assumes "\<forall>p \<in> set (People conf).
             Cadence p = CadenceOneWeek \<or> Cadence p = [] \<or> Cadence p = CadenceTwoWeeks"
  shows "\<exists>inel. getIneligiblePeople lib ord conf (determineValidPairings conf) date = Inr inel"
  using assms determineValidPairings_keys_resolve by (rule getIneligiblePeople_returns_keys)

lemma getIneligiblePeople_set:
  assumes "iterationOrder g ord" "getIneligiblePeople lib ord conf g date = Inr inel"
  shows "set inel = {k \<in> dom g. odd (snd (ISOWeek lib date)) \<and> biweekly conf k}"
    and "\<forall>k \<in> dom g. recognised conf k"
proof -
  from ineligibleLoop_Inr [OF assms(2) [unfolded getIneligiblePeople_def]]
  show "set inel = {k \<in> dom g. odd (snd (ISOWeek lib date)) \<and> biweekly conf k}"
    and "\<forall>k \<in> dom g. recognised conf k"
    unfolding set_keys_rangeMap [OF assms(1)] isValidWeekForTwoWeekCadence_def
    by (simp_all add: even_iff_mod_2_eq_zero)
qed

section \<open>The matcher\<close>

lemma firstUnpaired_Some:
  "firstUnpaired cands ap = Some b \<Longrightarrow> b \<in> set cands \<and> b \<notin> set ap"
  by (induction cands) (auto split: if_splits)

lemma firstUnpaired_cong_set:
  "set ap = set ap' \<Longrightarrow> firstUnpaired cands ap = firstUnpaired cands ap'"
  by (induction cands) auto

lemma pairedIDs_simps [simp]:
  "pairedIDs [] = []"
  "pairedIDs (ps @ [(a, b)]) = pairedIDs ps @ [a, b]"
  by (simp_all add: pairedIDs_def)

lemma set_pairedIDs: "set (pairedIDs ps) = fst ` set ps \<union> snd ` set ps"
  by (induction ps) (auto simp: pairedIDs_def)

text \<open>
  A pair the loop adds joins a visited key with one of the valid partners of that key,
  and neither of the two was paired or ineligible before.
\<close>

lemma pairLoop_member:
  "(a, b) \<in> set (pairLoop hord hist kvs ap ps) \<Longrightarrow>
     (a, b) \<in> set ps \<or>
     ((\<exists>v. (a, v) \<in> set kvs \<and> b \<in> set v) \<and> a \<notin> set ap \<and> b \<notin> set ap)"
proof (induction kvs arbitrary: ap ps)
  case Nil
  then show ?case by simp
next
  case (Cons kv rest)
  obtain i v where kv: "kv = (i, v)" by (cases kv)
  let ?cands = "getOrderedPossiblePairings (hord i) i v hist"
  show ?case
  proof (cases "i \<in> set ap")
    case True
    with Cons.prems kv have "(a, b) \<in> set (pairLoop hord hist rest ap ps)" by simp
    from Cons.IH [OF this] show ?thesis by auto
  next
    case False
    show ?thesis
    proof (cases "firstUnpaired ?cands ap")
      case None
      with False Cons.prems kv have "(a, b) \<in> set (pairLoop hord hist rest ap ps)" by simp
      from Cons.IH [OF this] show ?thesis by auto
    next
      case (Some pair)
      from firstUnpaired_Some [OF Some] set_getOrderedPossiblePairings
      have pv: "pair \<in> set v" and pa: "pair \<notin> set ap" by blast+
      from Some False Cons.prems kv
      have "(a, b) \<in> set (pairLoop hord hist rest (ap @ [i, pair]) (ps @ [(i, pair)]))" by simp
      from Cons.IH [OF this]
      consider "(a, b) \<in> set ps" | "a = i \<and> b = pair"
        | "(\<exists>v. (a, v) \<in> set rest \<and> b \<in> set v) \<and> a \<notin> set ap \<and> b \<notin> set ap"
        by auto
      then show ?thesis
      proof cases
        case 1
        then show ?thesis by blast
      next
        case 2
        with pv pa False kv show ?thesis by auto
      next
        case 3
        then show ?thesis by auto
      qed
    qed
  qed
qed

lemma pairLoop_distinct:
  "(\<forall>(k, v) \<in> set kvs. k \<notin> set v) \<Longrightarrow> distinct (pairedIDs ps) \<Longrightarrow>
   set (pairedIDs ps) \<subseteq> set ap \<Longrightarrow>
   distinct (pairedIDs (pairLoop hord hist kvs ap ps))"
proof (induction kvs arbitrary: ap ps)
  case Nil
  then show ?case by simp
next
  case (Cons kv rest)
  obtain i v where kv: "kv = (i, v)" by (cases kv)
  let ?cands = "getOrderedPossiblePairings (hord i) i v hist"
  from Cons.prems(1) kv have iv: "i \<notin> set v" and rest: "\<forall>(k, v) \<in> set rest. k \<notin> set v"
    by auto
  show ?case
  proof (cases "i \<in> set ap \<or> firstUnpaired ?cands ap = None")
    case True
    then have "pairLoop hord hist (kv # rest) ap ps = pairLoop hord hist rest ap ps"
      using kv by auto
    with Cons.IH [OF rest Cons.prems(2,3)] show ?thesis by simp
  next
    case False
    then obtain pair where i: "i \<notin> set ap" and f: "firstUnpaired ?cands ap = Some pair"
      by auto
    from firstUnpaired_Some [OF f] set_getOrderedPossiblePairings
    have pv: "pair \<in> set v" and pa: "pair \<notin> set ap" by blast+
    from pv iv have ne: "i \<noteq> pair" by blast
    have d: "distinct (pairedIDs (ps @ [(i, pair)]))"
      using Cons.prems(2,3) i pa ne by auto
    have s: "set (pairedIDs (ps @ [(i, pair)])) \<subseteq> set (ap @ [i, pair])"
      using Cons.prems(3) by auto
    have "pairLoop hord hist (kv # rest) ap ps =
            pairLoop hord hist rest (ap @ [i, pair]) (ps @ [(i, pair)])"
      using kv i f by simp
    with Cons.IH [OF rest d s] show ?thesis by simp
  qed
qed

text \<open>The loop reads \<^verbatim>\<open>alreadyPaired\<close> only through \<^verbatim>\<open>slices.Contains\<close>.\<close>

lemma pairLoop_cong_set:
  "set ap = set ap' \<Longrightarrow> pairLoop hord hist kvs ap ps = pairLoop hord hist kvs ap' ps"
proof (induction kvs arbitrary: ap ap' ps)
  case Nil
  show ?case by simp
next
  case (Cons kv rest)
  obtain i v where kv: "kv = (i, v)" by (cases kv)
  let ?cands = "getOrderedPossiblePairings (hord i) i v hist"
  have f: "firstUnpaired ?cands ap = firstUnpaired ?cands ap'"
    by (rule firstUnpaired_cong_set [OF Cons.prems])
  have m: "i \<in> set ap \<longleftrightarrow> i \<in> set ap'" using Cons.prems by simp
  show ?case
  proof (cases "firstUnpaired ?cands ap'")
    case None
    with f m kv Cons.IH [OF Cons.prems] show ?thesis by simp
  next
    case (Some pair)
    have "set (ap @ [i, pair]) = set (ap' @ [i, pair])" using Cons.prems by simp
    from Cons.IH [OF this] Cons.IH [OF Cons.prems] Some f m kv show ?thesis by simp
  qed
qed

lemma pairPeople_Inr:
  assumes "pairPeople lib ro conf g hist date = Inr ps"
  obtains inel where "getIneligiblePeople lib (eligibleOrder ro) conf g date = Inr inel"
    "ps = pairLoop (historyOrder ro) hist (rangeMap g (visitOrder ro)) inel []"
  using assms by (auto simp: pairPeople_def split: sum.splits)

lemma pairPeople_returns:
  assumes "\<forall>p \<in> set (People conf).
             Cadence p = CadenceOneWeek \<or> Cadence p = [] \<or> Cadence p = CadenceTwoWeeks"
  shows "\<exists>pairings. pairPeople lib ro conf (determineValidPairings conf) hist date = Inr pairings"
proof -
  from getIneligiblePeople_returns [OF assms]
  obtain inel where
    "getIneligiblePeople lib (eligibleOrder ro) conf (determineValidPairings conf) date = Inr inel"
    by blast
  then show ?thesis by (simp add: pairPeople_def)
qed

lemma pairLoop_keys_pair:
  assumes "partnersAreKeys g"
    and "(a, b) \<in> set (pairLoop hord hist (rangeMap g ord) inel [])"
  shows "a \<in> dom g \<and> b \<in> dom g \<and> a \<notin> set inel \<and> b \<notin> set inel"
proof -
  from pairLoop_member [OF assms(2)]
  obtain v where kv: "(a, v) \<in> set (rangeMap g ord)" and bv: "b \<in> set v"
    and n: "a \<notin> set inel" "b \<notin> set inel"
    by auto
  from kv have a: "g a = Some v" by (simp add: set_rangeMap)
  with assms(1) bv have "b \<in> dom g" unfolding partnersAreKeys_def by blast
  with a n show ?thesis by auto
qed

text \<open>
  C1 (exclusion correctness): for every roster with unique IDs, every store, every date
  and all orders of ranging, each pair \<open>(a, b)\<close> of the Pairing Set that \<^verbatim>\<open>pairPeople\<close>
  returns on the graph built from the roster resolves in the roster to two persons of
  whom neither has the other in its deny list and who do not share a non-empty squad.
  An ID that only the history store holds resolves to no person of the roster, so it is
  in no pair.
\<close>

theorem pairPeople_pairs_valid:
  assumes "validate conf = None"
    and "pairPeople lib ro conf (determineValidPairings conf) hist date = Inr pairings"
    and "(a, b) \<in> set pairings"
  shows "\<exists>pa pb. GetPerson conf a = Inr pa \<and> GetPerson conf b = Inr pb
           \<and> b \<notin> set (DenyList pa) \<and> a \<notin> set (DenyList pb)
           \<and> \<not> (Squad pa \<noteq> [] \<and> Squad pa = Squad pb)"
proof -
  let ?g = "determineValidPairings conf"
  from assms(2) obtain inel where
    "pairings = pairLoop (historyOrder ro) hist (rangeMap ?g (visitOrder ro)) inel []"
    by (rule pairPeople_Inr)
  with assms(3) pairLoop_member [of a b "historyOrder ro" hist "rangeMap ?g (visitOrder ro)" inel "[]"]
  obtain v where "(a, v) \<in> set (rangeMap ?g (visitOrder ro))" "b \<in> set v"
    by auto
  from rangeMap_graph_member [OF this]
  obtain p q where p: "p \<in> set (People conf)" and q: "q \<in> set (People conf)"
    and i: "ID p = a" "ID q = b" and v: "validPartner p q"
    by (rule determineValidPairings_partner)
  from GetPerson_unique [OF assms(1) p] GetPerson_unique [OF assms(1) q] i
  have "GetPerson conf a = Inr p" "GetPerson conf b = Inr q" by simp_all
  moreover from v i have "b \<notin> set (DenyList p)" "a \<notin> set (DenyList q)"
    "\<not> (Squad p \<noteq> [] \<and> Squad p = Squad q)"
    by (auto simp: validPartner_def)
  ultimately show ?thesis by blast
qed

theorem pairPeople_pairs_valid_witness:
  "validate marioParty = None
   \<and> pairPeople exampleCalendar rosterOrder marioParty (determineValidPairings marioParty)
       \<lparr>data = None\<rparr> 0 = Inr [(''mario'', ''peach'')]
   \<and> (''mario'', ''peach'') \<in> set [(''mario'', ''peach'')]
   \<and> (\<exists>pa pb. GetPerson marioParty ''mario'' = Inr pa \<and> GetPerson marioParty ''peach'' = Inr pb
         \<and> ''peach'' \<notin> set (DenyList pa) \<and> ''mario'' \<notin> set (DenyList pb)
         \<and> \<not> (Squad pa \<noteq> [] \<and> Squad pa = Squad pb))"
proof -
  have v: "validate marioParty = None"
    by (simp add: validate_def marioParty_def)
  have e: "pairPeople exampleCalendar rosterOrder marioParty (determineValidPairings marioParty)
             \<lparr>data = None\<rparr> 0 = Inr [(''mario'', ''peach'')]"
    by code_simp
  have m: "(''mario'', ''peach'') \<in> set [(''mario'', ''peach'')]"
    by simp
  show ?thesis
    by (intro conjI v e m pairPeople_pairs_valid [OF v e m])
qed

text \<open>
  C2 (no double-booking): in the Pairing Set that one call of \<^verbatim>\<open>pairPeople\<close> returns on
  the graph built from the roster, the IDs of all pairs, first and second components
  together, are pairwise different: nobody is in two pairs and no pair holds the same ID
  twice. The statement does not need the IDs of the roster to be unique.
\<close>

theorem pairPeople_no_double_booking:
  assumes "pairPeople lib ro conf (determineValidPairings conf) hist date = Inr pairings"
  shows "distinct (pairedIDs pairings)"
proof -
  let ?g = "determineValidPairings conf"
  from assms obtain inel where
    ps: "pairings = pairLoop (historyOrder ro) hist (rangeMap ?g (visitOrder ro)) inel []"
    by (rule pairPeople_Inr)
  show ?thesis
    unfolding ps
    by (rule pairLoop_distinct [OF determineValidPairings_no_self]) simp_all
qed

theorem pairPeople_no_double_booking_witness:
  "pairPeople exampleCalendar rosterOrder marioParty (determineValidPairings marioParty)
     \<lparr>data = None\<rparr> 7 = Inr [(''mario'', ''peach''), (''luigi'', ''bowser'')]
   \<and> distinct (pairedIDs [(''mario'', ''peach''), (''luigi'', ''bowser'')])"
proof -
  have e: "pairPeople exampleCalendar rosterOrder marioParty (determineValidPairings marioParty)
             \<lparr>data = None\<rparr> 7 = Inr [(''mario'', ''peach''), (''luigi'', ''bowser'')]"
    by code_simp
  show ?thesis
    by (intro conjI e pairPeople_no_double_booking [OF e])
qed

text \<open>
  C5 (cadence enforcement), as the code has it: \<^verbatim>\<open>getIneligiblePeople\<close> visits the keys
  of the graph, the people with at least one valid partner, and nobody else. For every
  roster with unique IDs whose cadences are all one of one-week, two-weeks and unset, and
  every graph whose keys resolve in the roster, it returns, and a person of the roster is
  in the ineligible set exactly when the person is a key of the graph, on the two-week
  cadence, and the ISO week of the date is odd: a person on the weekly or unset cadence
  is never in it, and neither is a person who is no key. \<^verbatim>\<open>pairPeople\<close> returns, and
  where every listed partner is a key, as in every graph \<^verbatim>\<open>determineValidPairings\<close>
  builds, no pair of a date whose ISO week is odd holds a person on the two-week cadence.
\<close>

theorem cadence_enforcement:
  assumes "validate conf = None"
    and "\<forall>p \<in> set (People conf).
           Cadence p = CadenceOneWeek \<or> Cadence p = [] \<or> Cadence p = CadenceTwoWeeks"
    and "\<forall>k \<in> dom g. \<exists>p \<in> set (People conf). ID p = k"
    and "iterationOrder g (eligibleOrder ro)"
  shows "\<exists>inel pairings.
           getIneligiblePeople lib (eligibleOrder ro) conf g date = Inr inel
         \<and> (\<forall>p \<in> set (People conf).
               ID p \<in> set inel \<longleftrightarrow>
                 ID p \<in> dom g \<and> Cadence p = CadenceTwoWeeks \<and> odd (snd (ISOWeek lib date)))
         \<and> pairPeople lib ro conf g hist date = Inr pairings
         \<and> (partnersAreKeys g \<and> odd (snd (ISOWeek lib date)) \<longrightarrow>
              (\<forall>p \<in> set (People conf).
                 Cadence p = CadenceTwoWeeks \<longrightarrow> ID p \<notin> set (pairedIDs pairings)))"
proof -
  from getIneligiblePeople_returns_keys [OF assms(2,3)]
  obtain inel where i: "getIneligiblePeople lib (eligibleOrder ro) conf g date = Inr inel"
    by blast
  let ?ps = "pairLoop (historyOrder ro) hist (rangeMap g (visitOrder ro)) inel []"
  have pp: "pairPeople lib ro conf g hist date = Inr ?ps"
    using i by (simp add: pairPeople_def)
  have bw: "biweekly conf (ID p) \<longleftrightarrow> Cadence p = CadenceTwoWeeks" if "p \<in> set (People conf)" for p
    using GetPerson_unique [OF assms(1) that] by (simp add: biweekly_def)
  have s: "set inel = {k \<in> dom g. odd (snd (ISOWeek lib date)) \<and> biweekly conf k}"
    by (rule getIneligiblePeople_set(1) [OF assms(4) i])
  have 1: "\<forall>p \<in> set (People conf).
             ID p \<in> set inel \<longleftrightarrow>
               ID p \<in> dom g \<and> Cadence p = CadenceTwoWeeks \<and> odd (snd (ISOWeek lib date))"
    unfolding s using bw by blast
  have 2: "ID p \<notin> set (pairedIDs ?ps)"
    if k: "partnersAreKeys g" and odd: "odd (snd (ISOWeek lib date))"
      and p: "p \<in> set (People conf)" and c: "Cadence p = CadenceTwoWeeks" for p
  proof
    assume "ID p \<in> set (pairedIDs ?ps)"
    then obtain a b where ab: "(a, b) \<in> set ?ps" and "ID p = a \<or> ID p = b"
      unfolding set_pairedIDs by force
    with pairLoop_keys_pair [OF k ab] have "ID p \<in> dom g" "ID p \<notin> set inel" by auto
    with 1 p c odd show False by blast
  qed
  from i 1 pp 2 show ?thesis by blast
qed

theorem cadence_enforcement_witness:
  "validate marioParty = None
   \<and> map Cadence (People marioParty) = [[], CadenceTwoWeeks, CadenceOneWeek, []]
   \<and> dom (determineValidPairings marioParty) = ID ` set (People marioParty)
   \<and> iterationOrder (determineValidPairings marioParty) (eligibleOrder rosterOrder)
   \<and> partnersAreKeys (determineValidPairings marioParty)
   \<and> odd (snd (ISOWeek exampleCalendar 0))
   \<and> getIneligiblePeople exampleCalendar (eligibleOrder rosterOrder) marioParty
        (determineValidPairings marioParty) 0 = Inr [''luigi'']
   \<and> pairPeople exampleCalendar rosterOrder marioParty (determineValidPairings marioParty)
        \<lparr>data = None\<rparr> 0 = Inr [(''mario'', ''peach'')]
   \<and> (\<exists>inel pairings.
         getIneligiblePeople exampleCalendar (eligibleOrder rosterOrder) marioParty
           (determineValidPairings marioParty) 0 = Inr inel
       \<and> (\<forall>p \<in> set (People marioParty).
             ID p \<in> set inel \<longleftrightarrow>
               ID p \<in> dom (determineValidPairings marioParty) \<and> Cadence p = CadenceTwoWeeks
               \<and> odd (snd (ISOWeek exampleCalendar 0)))
       \<and> pairPeople exampleCalendar rosterOrder marioParty (determineValidPairings marioParty)
           \<lparr>data = None\<rparr> 0 = Inr pairings
       \<and> (partnersAreKeys (determineValidPairings marioParty)
            \<and> odd (snd (ISOWeek exampleCalendar 0)) \<longrightarrow>
            (\<forall>p \<in> set (People marioParty).
               Cadence p = CadenceTwoWeeks \<longrightarrow> ID p \<notin> set (pairedIDs pairings))))"
proof -
  have v: "validate marioParty = None"
    by (simp add: validate_def marioParty_def)
  have c: "\<forall>p \<in> set (People marioParty).
             Cadence p = CadenceOneWeek \<or> Cadence p = [] \<or> Cadence p = CadenceTwoWeeks"
    by (simp add: marioParty_def CadenceOneWeek_def CadenceTwoWeeks_def)
  have c': "map Cadence (People marioParty) = [[], CadenceTwoWeeks, CadenceOneWeek, []]"
    by (simp add: marioParty_def CadenceOneWeek_def CadenceTwoWeeks_def)
  have d: "dom (determineValidPairings marioParty) = ID ` set (People marioParty)"
    unfolding marioParty_graph by (simp add: marioParty_def insert_commute)
  have k: "\<forall>k \<in> dom (determineValidPairings marioParty). \<exists>p \<in> set (People marioParty). ID p = k"
    unfolding d by blast
  have o: "iterationOrder (determineValidPairings marioParty) (eligibleOrder rosterOrder)"
    by (simp add: rosterOrder_def marioParty_order)
  have w: "odd (snd (ISOWeek exampleCalendar 0))"
    by (simp add: exampleCalendar_def)
  have i: "getIneligiblePeople exampleCalendar (eligibleOrder rosterOrder) marioParty
             (determineValidPairings marioParty) 0 = Inr [''luigi'']"
    by code_simp
  have e: "pairPeople exampleCalendar rosterOrder marioParty (determineValidPairings marioParty)
             \<lparr>data = None\<rparr> 0 = Inr [(''mario'', ''peach'')]"
    by code_simp
  show ?thesis
    by (intro conjI v c' d o determineValidPairings_partnersAreKeys w i e
        cadence_enforcement [OF v c k o])
qed

text \<open>
  In the roster \<open>loneWario\<close> nobody has a valid partner, so the graph has no key: on a
  date in an odd ISO week, \<^verbatim>\<open>wario\<close>, on the two-week cadence, is not in the ineligible
  set.
\<close>

theorem ineligible_without_partner_counterexample:
  "validate loneWario = None
   \<and> map ID (People loneWario) = [''wario'', ''waluigi'']
   \<and> map Cadence (People loneWario) = [CadenceTwoWeeks, []]
   \<and> determineValidPairings loneWario = Map.empty
   \<and> iterationOrder (determineValidPairings loneWario) []
   \<and> odd (snd (ISOWeek exampleCalendar 0))
   \<and> getIneligiblePeople exampleCalendar [] loneWario (determineValidPairings loneWario) 0 = Inr []
   \<and> \<not> (\<forall>p \<in> set (People loneWario).
           Cadence p = CadenceTwoWeeks \<longrightarrow>
             (ID p \<in> set [] \<longleftrightarrow> odd (snd (ISOWeek exampleCalendar 0))))"
proof -
  have v: "validate loneWario = None"
    by (simp add: validate_def loneWario_def)
  have n: "map ID (People loneWario) = [''wario'', ''waluigi'']"
    by (simp add: loneWario_def)
  have c: "map Cadence (People loneWario) = [CadenceTwoWeeks, []]"
    by (simp add: loneWario_def CadenceTwoWeeks_def)
  have g: "determineValidPairings loneWario = Map.empty"
    by (simp add: determineValidPairings_def loneWario_def)
  have o: "iterationOrder (determineValidPairings loneWario) []"
    unfolding g by (simp add: iterationOrder_def)
  have w: "odd (snd (ISOWeek exampleCalendar 0))"
    by (simp add: exampleCalendar_def)
  have i: "getIneligiblePeople exampleCalendar [] loneWario (determineValidPairings loneWario) 0 = Inr []"
    by (simp add: getIneligiblePeople_def)
  have f: "\<not> (\<forall>p \<in> set (People loneWario).
           Cadence p = CadenceTwoWeeks \<longrightarrow>
             (ID p \<in> set [] \<longleftrightarrow> odd (snd (ISOWeek exampleCalendar 0))))"
    using w by (simp add: loneWario_def CadenceTwoWeeks_def)
  show ?thesis
    by (intro conjI v n c g o w i f)
qed

text \<open>
  The order of the eligibility loop does not reach the result: two runs that differ only
  in it return the same Pairing Set.
\<close>

lemma pairPeople_cong_eligibleOrder:
  assumes "iterationOrder g (eligibleOrder ro)" "iterationOrder g (eligibleOrder ro')"
    and "visitOrder ro' = visitOrder ro" "historyOrder ro' = historyOrder ro"
    and "pairPeople lib ro conf g hist date = Inr pairings"
  shows "pairPeople lib ro' conf g hist date = Inr pairings"
proof -
  from assms(5) obtain inel where
    i: "getIneligiblePeople lib (eligibleOrder ro) conf g date = Inr inel"
    and ps: "pairings = pairLoop (historyOrder ro) hist (rangeMap g (visitOrder ro)) inel []"
    by (rule pairPeople_Inr)
  from getIneligiblePeople_set(2) [OF assms(1) i]
  have "\<forall>k \<in> set (map fst (rangeMap g (eligibleOrder ro'))). recognised conf k"
    unfolding set_keys_rangeMap [OF assms(2)] .
  from ineligibleLoop_returns [OF this]
  obtain inel' where i': "getIneligiblePeople lib (eligibleOrder ro') conf g date = Inr inel'"
    unfolding getIneligiblePeople_def by blast
  have "set inel' = set inel"
    unfolding getIneligiblePeople_set(1) [OF assms(1) i] getIneligiblePeople_set(1) [OF assms(2) i'] ..
  from pairLoop_cong_set [OF this] i' ps assms(3,4) show ?thesis
    by (simp add: pairPeople_def)
qed

section \<open>The orchestrator\<close>

lemma weekStart_Inl:
  "weekStart lib start ros config hist k = Inl e \<Longrightarrow>
   weekStart lib start ros config hist (k + n) = Inl e"
  by (induction n) simp_all

lemma weeksLoop_weekStart:
  assumes "weekStart lib start ros config hist k = Inr h"
  shows "weeksLoop lib ros config (determineValidPairings config) n k h (weekDate lib start k) acc =
           (case weekStart lib start ros config hist (k + n) of
              Inl err \<Rightarrow> Inl err
            | Inr h' \<Rightarrow> Inr (acc @ map (weekPairings lib start ros config hist) [k..<k + n], h'))"
  using assms
proof (induction n arbitrary: k h acc)
  case 0
  then show ?case by simp
next
  case (Suc n)
  let ?g = "determineValidPairings config"
  let ?d = "weekDate lib start k"
  let ?W = "weekPairings lib start ros config hist"
  have d: "AddDate lib ?d 0 0 7 = weekDate lib start (Suc k)"
    by (simp add: weekDate_def)
  have i: "k + Suc n = Suc k + n" by simp
  show ?case
  proof (cases "pairPeople lib (ros k) config ?g h ?d")
    case (Inl e)
    with Suc.prems have "weekStart lib start ros config hist (Suc k) = Inl e" by simp
    from weekStart_Inl [OF this, of n]
    have "weekStart lib start ros config hist (k + Suc n) = Inl e" by (simp only: i)
    with Inl show ?thesis by simp
  next
    case (Inr ps)
    note pp = this
    with Suc.prems have wp: "?W k = ps"
      by (simp add: weekPairings_def)
    show ?thesis
    proof (cases "addMeetings h ps ?d")
      case (Inl e)
      with pp Suc.prems have "weekStart lib start ros config hist (Suc k) = Inl e" by simp
      from weekStart_Inl [OF this, of n]
      have "weekStart lib start ros config hist (k + Suc n) = Inl e" by (simp only: i)
      with Inl pp show ?thesis by simp
    next
      case (Inr h')
      with pp Suc.prems have ws: "weekStart lib start ros config hist (Suc k) = Inr h'" by simp
      have e: "weeksLoop lib ros config ?g (Suc n) k h ?d acc =
                 weeksLoop lib ros config ?g n (Suc k) h' (weekDate lib start (Suc k)) (acc @ [ps])"
        using pp Inr by (simp add: d)
      have u: "[k..<Suc k + n] = k # [Suc k..<Suc k + n]"
        by (rule upt_conv_Cons) simp
      have l: "acc @ map ?W [k..<Suc k + n] = (acc @ [ps]) @ map ?W [Suc k..<Suc k + n]"
        unfolding u using wp by simp
      show ?thesis
        by (simp only: e Suc.IH [OF ws] i l)
    qed
  qed
qed

text \<open>
  \<^verbatim>\<open>GeneratePairings\<close> builds the graph once and returns the Pairing Sets of the weeks
  \<open>0, \<dots>, weeks - 1\<close> with the store before week \<open>weeks\<close>, or fails where a week fails.
\<close>

lemma GeneratePairings_weekStart:
  "GeneratePairings lib now ros config hist weeks =
     (case weekStart lib now ros config hist (nat weeks) of
        Inl err \<Rightarrow> Inl err
      | Inr h' \<Rightarrow> Inr (map (weekPairings lib now ros config hist) [0..<nat weeks], h'))"
proof -
  have "weekStart lib now ros config hist 0 = Inr hist" by simp
  from weeksLoop_weekStart [OF this, of "nat weeks" "[]"]
  have "GeneratePairings lib now ros config hist weeks =
          (case weekStart lib now ros config hist (0 + nat weeks) of
             Inl err \<Rightarrow> Inl err
           | Inr h' \<Rightarrow> Inr ([] @ map (weekPairings lib now ros config hist) [0..<0 + nat weeks], h'))"
    by (simp add: GeneratePairings_def weekDate_def)
  then show ?thesis
    by (cases "weekStart lib now ros config hist (nat weeks)") simp_all
qed

lemma weekStart_returns:
  assumes "\<forall>p \<in> set (People config).
             Cadence p = CadenceOneWeek \<or> Cadence p = [] \<or> Cadence p = CadenceTwoWeeks"
    and "noNilPartners hist"
  shows "\<exists>h. weekStart lib start ros config hist k = Inr h \<and> noNilPartners h"
proof (induction k)
  case 0
  with assms(2) show ?case by simp
next
  case (Suc k)
  then obtain h where h: "weekStart lib start ros config hist k = Inr h" "noNilPartners h"
    by blast
  from pairPeople_returns [OF assms(1)]
  obtain ps where ps: "pairPeople lib (ros k) config (determineValidPairings config) h
                         (weekDate lib start k) = Inr ps"
    by blast
  from addMeetings_noNilPartners [OF h(2)]
  obtain h' where "addMeetings h ps (weekDate lib start k) = Inr h'" "noNilPartners h'"
    by blast
  with h ps show ?case by simp
qed

text \<open>
  The statement of C9 on the rosters whose cadences are all accepted and the stores
  without a nil partner map: the run returns, and week by week its result is the
  matcher's output against the store that holds the meetings of the weeks before.
\<close>

lemma GeneratePairings_weeks:
  assumes "\<forall>p \<in> set (People config).
             Cadence p = CadenceOneWeek \<or> Cadence p = [] \<or> Cadence p = CadenceTwoWeeks"
    and "noNilPartners hist"
  shows "\<exists>weekly hist'.
           GeneratePairings lib now ros config hist weeks = Inr (weekly, hist')
         \<and> length weekly = nat weeks
         \<and> (\<forall>k < nat weeks. \<exists>h.
               weekStart lib now ros config hist k = Inr h
             \<and> pairPeople lib (ros k) config (determineValidPairings config) h
                 (weekDate lib now k) = Inr (weekly ! k)
             \<and> addMeetings h (weekly ! k) (weekDate lib now k) =
                 weekStart lib now ros config hist (Suc k))
         \<and> weekStart lib now ros config hist (nat weeks) = Inr hist'"
proof -
  from weekStart_returns [OF assms]
  obtain hfin where f: "weekStart lib now ros config hist (nat weeks) = Inr hfin" by blast
  let ?weekly = "map (weekPairings lib now ros config hist) [0..<nat weeks]"
  have g: "GeneratePairings lib now ros config hist weeks = Inr (?weekly, hfin)"
    by (simp add: GeneratePairings_weekStart f)
  have w: "\<exists>h. weekStart lib now ros config hist k = Inr h
             \<and> pairPeople lib (ros k) config (determineValidPairings config) h
                 (weekDate lib now k) = Inr (?weekly ! k)
             \<and> addMeetings h (?weekly ! k) (weekDate lib now k) =
                 weekStart lib now ros config hist (Suc k)"
    if k: "k < nat weeks" for k
  proof -
    from weekStart_returns [OF assms]
    obtain h where h: "weekStart lib now ros config hist k = Inr h" by blast
    from pairPeople_returns [OF assms(1)]
    obtain ps where ps: "pairPeople lib (ros k) config (determineValidPairings config) h
                           (weekDate lib now k) = Inr ps"
      by blast
    from h ps k have "?weekly ! k = ps" by (simp add: weekPairings_def)
    with h ps show ?thesis by simp
  qed
  from g w f show ?thesis by auto
qed


text \<open>
  C9 (the orchestrator), at a store the code can be given: with the store of C7 as the
  initial store, a valid roster and one week, the matcher pairs \<^verbatim>\<open>mario\<close> with \<^verbatim>\<open>peach\<close>,
  and feeding the pair into \<^verbatim>\<open>AddMeeting\<close> panics on the nil partner map of \<^verbatim>\<open>mario\<close>: no
  sequence of Pairing Sets is returned.
\<close>

theorem GeneratePairings_null_partners_panics:
  "GeneratePairings exampleCalendar 0 (\<lambda>k. rosterOrder) marioParty nullPartnersHistory 1
     = Inl AssignmentToNilMap"
proof -
  have p: "pairPeople exampleCalendar rosterOrder marioParty (determineValidPairings marioParty)
             nullPartnersHistory 0 = Inr [(''mario'', ''peach'')]"
    by code_simp
  have a: "AddMeeting nullPartnersHistory ''mario'' ''peach'' 0 =
             Inl (AssignmentToNilMap, nullPartnersHistory)"
    by (simp add: nullPartnersHistory_def AddMeeting_def addMeetingToPersonsHistory_def)
  have n: "nat 1 = Suc 0" by simp
  show ?thesis
    unfolding GeneratePairings_def n by (simp add: p a)
qed

section \<open>Reproducibility\<close>

text \<open>Runs that differ only in the orders of their eligibility loops return the same.\<close>

lemma weeksLoop_eligibleOrder:
  assumes "\<forall>k. iterationOrder g (eligibleOrder (ros k)) \<and> iterationOrder g (eligibleOrder (ros' k))
              \<and> visitOrder (ros' k) = visitOrder (ros k)
              \<and> historyOrder (ros' k) = historyOrder (ros k)"
    and "weeksLoop lib ros config g n k h d acc = Inr r"
  shows "weeksLoop lib ros' config g n k h d acc = Inr r"
  using assms(2)
proof (induction n arbitrary: k h d acc)
  case 0
  then show ?case by simp
next
  case (Suc n)
  from Suc.prems obtain ps where ps: "pairPeople lib (ros k) config g h d = Inr ps"
    by (cases "pairPeople lib (ros k) config g h d") simp_all
  from assms(1) have o: "iterationOrder g (eligibleOrder (ros k))"
    "iterationOrder g (eligibleOrder (ros' k))" "visitOrder (ros' k) = visitOrder (ros k)"
    "historyOrder (ros' k) = historyOrder (ros k)"
    by simp_all
  have ps': "pairPeople lib (ros' k) config g h d = Inr ps"
    by (rule pairPeople_cong_eligibleOrder [OF o ps])
  from Suc.prems ps obtain h' where h': "addMeetings h ps d = Inr h'"
    by (cases "addMeetings h ps d") simp_all
  from Suc.prems ps h'
  have "weeksLoop lib ros config g n (Suc k) h' (AddDate lib d 0 0 7) (acc @ [ps]) = Inr r"
    by simp
  from Suc.IH [OF this] ps' h' show ?case by simp
qed

lemma GeneratePairings_eligibleOrder:
  assumes "\<forall>k. iterationOrder (determineValidPairings config) (eligibleOrder (ros k))
              \<and> iterationOrder (determineValidPairings config) (eligibleOrder (ros' k))
              \<and> visitOrder (ros' k) = visitOrder (ros k)
              \<and> historyOrder (ros' k) = historyOrder (ros k)"
    and "GeneratePairings lib now ros config hist weeks = Inr r"
  shows "GeneratePairings lib now ros' config hist weeks = Inr r"
  using assms(2) unfolding GeneratePairings_def by (rule weeksLoop_eligibleOrder [OF assms(1)])

text \<open>
  C4 (determinism), as the code has it: \<^verbatim>\<open>pairPeople\<close> ranges over Go maps, whose order
  the language leaves open, so the Pairing Set is a function of the roster, the graph,
  the store, the date and the orders of ranging. Any two runs on the same roster, graph,
  store and date that visit the keys of the graph in the same order in the loop of
  \<^verbatim>\<open>pairPeople\<close> and range over every partner map in the same order return the same
  Pairing Set, whatever the orders of their eligibility loops. Hence two runs of
  \<^verbatim>\<open>GeneratePairings\<close> on the same roster, store and number of weeks that read the same
  time from the clock and agree, week by week, on these two orders return the same
  sequence of Pairing Sets and leave the same store.
\<close>

theorem runs_agree_up_to_eligibleOrder:
  "(iterationOrder g (eligibleOrder ro) \<and> iterationOrder g (eligibleOrder ro')
      \<and> visitOrder ro' = visitOrder ro \<and> historyOrder ro' = historyOrder ro
      \<and> pairPeople lib ro conf g hist date = Inr pairings
    \<longrightarrow> pairPeople lib ro' conf g hist date = Inr pairings)
   \<and> ((\<forall>k. iterationOrder (determineValidPairings conf) (eligibleOrder (ros k))
            \<and> iterationOrder (determineValidPairings conf) (eligibleOrder (ros' k))
            \<and> visitOrder (ros' k) = visitOrder (ros k)
            \<and> historyOrder (ros' k) = historyOrder (ros k))
        \<and> GeneratePairings lib now ros conf hist weeks = Inr r
      \<longrightarrow> GeneratePairings lib now ros' conf hist weeks = Inr r)"
proof (intro conjI impI)
  assume "iterationOrder g (eligibleOrder ro) \<and> iterationOrder g (eligibleOrder ro')
      \<and> visitOrder ro' = visitOrder ro \<and> historyOrder ro' = historyOrder ro
      \<and> pairPeople lib ro conf g hist date = Inr pairings"
  then show "pairPeople lib ro' conf g hist date = Inr pairings"
    by (elim conjE) (rule pairPeople_cong_eligibleOrder)
next
  assume a: "(\<forall>k. iterationOrder (determineValidPairings conf) (eligibleOrder (ros k))
            \<and> iterationOrder (determineValidPairings conf) (eligibleOrder (ros' k))
            \<and> visitOrder (ros' k) = visitOrder (ros k)
            \<and> historyOrder (ros' k) = historyOrder (ros k))
        \<and> GeneratePairings lib now ros conf hist weeks = Inr r"
  show "GeneratePairings lib now ros' conf hist weeks = Inr r"
    by (rule GeneratePairings_eligibleOrder [OF conjunct1 [OF a] conjunct2 [OF a]])
qed

theorem runs_agree_up_to_eligibleOrder_witness:
  "iterationOrder (determineValidPairings marioParty) (eligibleOrder rosterOrder)
   \<and> iterationOrder (determineValidPairings marioParty) (eligibleOrder eligibleReversed)
   \<and> eligibleOrder eligibleReversed \<noteq> eligibleOrder rosterOrder
   \<and> visitOrder eligibleReversed = visitOrder rosterOrder
   \<and> historyOrder eligibleReversed = historyOrder rosterOrder
   \<and> pairPeople exampleCalendar rosterOrder marioParty (determineValidPairings marioParty)
        \<lparr>data = None\<rparr> 0 = Inr [(''mario'', ''peach'')]
   \<and> pairPeople exampleCalendar eligibleReversed marioParty (determineValidPairings marioParty)
        \<lparr>data = None\<rparr> 0 = Inr [(''mario'', ''peach'')]
   \<and> GeneratePairings exampleCalendar 0 (\<lambda>k. rosterOrder) marioParty \<lparr>data = None\<rparr> 1 =
        Inr ([[(''mario'', ''peach'')]],
             \<lparr>data = Some [''mario'' \<mapsto> Some [''peach'' \<mapsto> 0], ''peach'' \<mapsto> Some [''mario'' \<mapsto> 0]]\<rparr>)
   \<and> GeneratePairings exampleCalendar 0 (\<lambda>k. eligibleReversed) marioParty \<lparr>data = None\<rparr> 1 =
        Inr ([[(''mario'', ''peach'')]],
             \<lparr>data = Some [''mario'' \<mapsto> Some [''peach'' \<mapsto> 0], ''peach'' \<mapsto> Some [''mario'' \<mapsto> 0]]\<rparr>)"
proof -
  let ?g = "determineValidPairings marioParty"
  let ?r = "([[(''mario'', ''peach'')]],
             \<lparr>data = Some [''mario'' \<mapsto> Some [''peach'' \<mapsto> 0], ''peach'' \<mapsto> Some [''mario'' \<mapsto> (0::int)]]\<rparr>)"
  have o1: "iterationOrder ?g (eligibleOrder rosterOrder)"
    by (simp add: rosterOrder_def marioParty_order)
  have o2: "iterationOrder ?g (eligibleOrder eligibleReversed)"
    by (simp add: eligibleReversed_def marioParty_order3)
  have d: "eligibleOrder eligibleReversed \<noteq> eligibleOrder rosterOrder"
    by (simp add: eligibleReversed_def rosterOrder_def)
  have vo: "visitOrder eligibleReversed = visitOrder rosterOrder"
    by (simp add: eligibleReversed_def rosterOrder_def)
  have ho: "historyOrder eligibleReversed = historyOrder rosterOrder"
    by (simp add: eligibleReversed_def rosterOrder_def)
  have e: "pairPeople exampleCalendar rosterOrder marioParty ?g \<lparr>data = None\<rparr> 0
             = Inr [(''mario'', ''peach'')]"
    by code_simp
  have a: "AddMeeting \<lparr>data = None\<rparr> ''mario'' ''peach'' 0 = Inr (snd ?r)"
    by (simp add: AddMeeting_def addMeetingToPersonsHistory_def)
  have n: "nat 1 = Suc 0" by simp
  have g: "GeneratePairings exampleCalendar 0 (\<lambda>k. rosterOrder) marioParty \<lparr>data = None\<rparr> 1 = Inr ?r"
    unfolding GeneratePairings_def n by (simp add: e a)
  have e': "pairPeople exampleCalendar eligibleReversed marioParty ?g \<lparr>data = None\<rparr> 0
             = Inr [(''mario'', ''peach'')]"
    using runs_agree_up_to_eligibleOrder [THEN conjunct1, rule_format, OF conjI [OF o1 conjI [OF o2 conjI [OF vo conjI [OF ho e]]]]] .
  have w: "\<forall>k. iterationOrder ?g (eligibleOrder rosterOrder)
            \<and> iterationOrder ?g (eligibleOrder eligibleReversed)
            \<and> visitOrder eligibleReversed = visitOrder rosterOrder
            \<and> historyOrder eligibleReversed = historyOrder rosterOrder"
    using o1 o2 vo ho by (intro allI conjI)
  have g': "GeneratePairings exampleCalendar 0 (\<lambda>k. eligibleReversed) marioParty \<lparr>data = None\<rparr> 1 = Inr ?r"
    using runs_agree_up_to_eligibleOrder [THEN conjunct2, rule_format,
        of marioParty "\<lambda>k. rosterOrder" "\<lambda>k. eligibleReversed", OF conjI [OF w g]] .
  show ?thesis
    by (intro conjI o1 o2 d vo ho e e' g g')
qed

text \<open>
  Two runs on one roster, graph, store and date that visit the keys of the graph in
  different orders, both orders Go can choose, return different Pairing Sets.
\<close>

theorem pairPeople_order_counterexample:
  "admissibleOrders (determineValidPairings marioParty) \<lparr>data = None\<rparr> rosterOrder
   \<and> admissibleOrders (determineValidPairings marioParty) \<lparr>data = None\<rparr> bowserFirst
   \<and> pairPeople exampleCalendar rosterOrder marioParty (determineValidPairings marioParty)
        \<lparr>data = None\<rparr> 0 = Inr [(''mario'', ''peach'')]
   \<and> pairPeople exampleCalendar bowserFirst marioParty (determineValidPairings marioParty)
        \<lparr>data = None\<rparr> 0 = Inr [(''bowser'', ''mario'')]
   \<and> pairPeople exampleCalendar rosterOrder marioParty (determineValidPairings marioParty)
        \<lparr>data = None\<rparr> 0
     \<noteq> pairPeople exampleCalendar bowserFirst marioParty (determineValidPairings marioParty)
        \<lparr>data = None\<rparr> 0"
proof -
  have e1: "pairPeople exampleCalendar rosterOrder marioParty (determineValidPairings marioParty)
              \<lparr>data = None\<rparr> 0 = Inr [(''mario'', ''peach'')]"
    by code_simp
  have e2: "pairPeople exampleCalendar bowserFirst marioParty (determineValidPairings marioParty)
              \<lparr>data = None\<rparr> 0 = Inr [(''bowser'', ''mario'')]"
    by code_simp
  have ne: "pairPeople exampleCalendar rosterOrder marioParty (determineValidPairings marioParty)
              \<lparr>data = None\<rparr> 0
            \<noteq> pairPeople exampleCalendar bowserFirst marioParty (determineValidPairings marioParty)
              \<lparr>data = None\<rparr> 0"
    unfolding e1 e2 by simp
  show ?thesis
    by (intro conjI rosterOrder_admissible bowserFirst_admissible e1 e2 ne)
qed


end
